theory Spec2Isabelle
  imports Main "HOL-Library.Finite_Map"
begin

section \<open>B-tree (trees/btree/btree.go)\<close>

text \<open>
  The Go tree is a pointer structure: a node holds its entries, its children and a
  back-reference \<open>Parent\<close>. In the model a node is a value, and a reference to a node
  of the tree is the path from the root to it (the list of child indices). The parent
  of the node at path \<open>p\<close> is the node at \<open>butlast p\<close>; the root, whose \<open>Parent\<close> is
  nil, has the empty path. Every assignment to \<open>Parent\<close> in the source accompanies
  the move of that child into the children of its new parent, so the back-reference
  and the position in the tree agree.

  Keys are compared by the tree's \<open>Comparator\<close>; the comparator type is declared
  outside the modelled files. Modelled from the spec: the comparator is a total-order
  function returning a negative, zero or positive number, here the three-way
  comparison of a linear order on the keys.
\<close>

datatype error = InvalidOrder | NilDereference | IndexOutOfRange

datatype ('k, 'v) Entry = Entry (Key: 'k) (Value: 'v)

datatype ('k, 'v) Node = Node (Entries: "('k, 'v) Entry list") (Children: "('k, 'v) Node list")

record ('k, 'v) Tree =
  Root :: "('k, 'v) Node option"
  size_n :: nat
  m_order :: nat

type_synonym path = "nat list"

definition Comparator :: "'k::linorder \<Rightarrow> 'k \<Rightarrow> int" where
  "Comparator a b = (if a < b then - 1 else if a = b then 0 else 1)"

definition NewWith :: "nat \<Rightarrow> error + ('k, 'v) Tree" where
  "NewWith ord = (if ord < 3 then Inl InvalidOrder
                  else Inr \<lparr>Root = None, size_n = 0, m_order = ord\<rparr>)"

subsection \<open>Node references as paths\<close>

primrec get_node :: "('k, 'v) Node \<Rightarrow> path \<Rightarrow> ('k, 'v) Node option" where
  "get_node n [] = Some n"
| "get_node n (i # p) =
     (if i < length (Children n) then get_node (Children n ! i) p else None)"

primrec put_node :: "('k, 'v) Node \<Rightarrow> path \<Rightarrow> ('k, 'v) Node \<Rightarrow> ('k, 'v) Node" where
  "put_node n [] x = x"
| "put_node n (i # p) x =
     Node (Entries n) ((Children n)[i := put_node (Children n ! i) p x])"

definition upd_child :: "('k, 'v) Node \<Rightarrow> nat \<Rightarrow> (('k, 'v) Node \<Rightarrow> ('k, 'v) Node) \<Rightarrow> ('k, 'v) Node" where
  "upd_child P j f = Node (Entries P) ((Children P)[j := f (Children P ! j)])"

subsection \<open>Size parameters\<close>

definition isLeaf :: "('k, 'v) Node \<Rightarrow> bool" where
  "isLeaf node = (length (Children node) = 0)"

definition maxChildren :: "nat \<Rightarrow> nat" where
  "maxChildren m = m"

definition minChildren :: "nat \<Rightarrow> nat" where
  "minChildren m = (m + 1) div 2"

definition maxEntries :: "nat \<Rightarrow> nat" where
  "maxEntries m = maxChildren m - 1"

definition minEntries :: "nat \<Rightarrow> nat" where
  "minEntries m = minChildren m - 1"

definition middle :: "nat \<Rightarrow> nat" where
  "middle m = (m - 1) div 2"

definition isFull :: "nat \<Rightarrow> ('k, 'v) Node \<Rightarrow> bool" where
  "isFull m node = (length (Entries node) = maxEntries m)"

definition shouldSplit :: "nat \<Rightarrow> ('k, 'v) Node \<Rightarrow> bool" where
  "shouldSplit m node = (length (Entries node) > maxEntries m)"

subsection \<open>Search\<close>

function search_loop :: "('k::linorder, 'v) Entry list \<Rightarrow> 'k \<Rightarrow> int \<Rightarrow> int \<Rightarrow> nat \<times> bool" where
  "search_loop es key low high =
     (if low \<le> high then
        (let mid = (high + low) div 2;
             compare = Comparator key (Key (es ! nat mid))
         in if compare > 0 then search_loop es key (mid + 1) high
            else if compare < 0 then search_loop es key low (mid - 1)
            else (nat mid, True))
      else (nat low, False))"
  by pat_completeness auto
termination
  by (relation "measure (\<lambda>(es, key, low, high). nat (high + 1 - low))") auto

declare search_loop.simps [simp del]

definition search :: "('k::linorder, 'v) Node \<Rightarrow> 'k \<Rightarrow> nat \<times> bool" where
  "search node key = search_loop (Entries node) key 0 (int (length (Entries node)) - 1)"

lemma size_nth_list:
  "i < length cs \<Longrightarrow> size (cs ! i) < Suc (size_list size cs)"
  by (metis less_Suc_eq_le nth_mem size_list_estimation' order_refl)

lemma size_nth_Children [termination_simp]:
  "i < length (Children node) \<Longrightarrow> size (Children node ! i) < size node"
proof (cases node)
  case (Node es cs)
  assume "i < length (Children node)"
  with Node have "size (cs ! i) < Suc (size_list size cs)"
    by (simp add: size_nth_list)
  with Node show ?thesis by simp
qed

fun searchRecursively_loop ::
  "('k::linorder, 'v) Node \<Rightarrow> path \<Rightarrow> 'k \<Rightarrow> error + (path \<times> nat) option" where
  "searchRecursively_loop node p key =
     (case search node key of
        (index, found) \<Rightarrow>
          if found then Inr (Some (p, index))
          else if isLeaf node then Inr None
          else if index < length (Children node)
               then searchRecursively_loop (Children node ! index) (p @ [index]) key
               else Inl IndexOutOfRange)"

declare searchRecursively_loop.simps [simp del]

definition Empty :: "('k, 'v) Tree \<Rightarrow> bool" where
  "Empty tree = (size_n tree = 0)"

definition Size :: "('k, 'v) Tree \<Rightarrow> nat" where
  "Size tree = size_n tree"

definition searchRecursively ::
  "('k::linorder, 'v) Tree \<Rightarrow> 'k \<Rightarrow> error + (path \<times> nat) option" where
  "searchRecursively tree key =
     (if Empty tree then Inr None
      else case Root tree of
             None \<Rightarrow> Inl NilDereference
           | Some root \<Rightarrow> searchRecursively_loop root [] key)"

subsection \<open>Insertion and splitting\<close>

text \<open>
  \<open>append(xs, nil); copy(xs[i+1:], xs[i:]); xs[i] = x\<close> inserts \<open>x\<close> at index \<open>i\<close>.
\<close>

definition insert_at :: "nat \<Rightarrow> 'a \<Rightarrow> 'a list \<Rightarrow> 'a list" where
  "insert_at i x xs = take i xs @ x # drop i xs"

text \<open>
  \<open>splitRoot\<close> and \<open>splitNonRoot\<close> slice the entries at \<open>middle + 1\<close>, and the
  children too when the node is not a leaf; Go panics when the slice bound exceeds the
  length.
\<close>

definition splitRoot :: "nat \<Rightarrow> ('k, 'v) Node \<Rightarrow> error + ('k, 'v) Node" where
  "splitRoot m root =
     (let mid = middle m in
      if mid + 1 > length (Entries root) then Inl IndexOutOfRange
      else if \<not> isLeaf root \<and> mid + 1 > length (Children root) then Inl IndexOutOfRange
      else
        (let left = Node (take mid (Entries root))
                      (if isLeaf root then [] else take (mid + 1) (Children root));
             right = Node (drop (mid + 1) (Entries root))
                      (if isLeaf root then [] else drop (mid + 1) (Children root))
         in Inr (Node [Entries root ! mid] [left, right])))"

function split :: "nat \<Rightarrow> ('k::linorder, 'v) Node \<Rightarrow> path \<Rightarrow> error + ('k, 'v) Node"
  and splitNonRoot :: "nat \<Rightarrow> ('k::linorder, 'v) Node \<Rightarrow> path \<Rightarrow> error + ('k, 'v) Node"
  where
  "split m root p =
     (case get_node root p of
        None \<Rightarrow> Inl NilDereference
      | Some node \<Rightarrow>
          if \<not> shouldSplit m node then Inr root
          else if p = [] then splitRoot m root
          else splitNonRoot m root p)"
| "splitNonRoot m root p =
     (if p = [] then Inl NilDereference
      else
        (case get_node root p of
           None \<Rightarrow> Inl NilDereference
         | Some node \<Rightarrow>
            (case get_node root (butlast p) of
               None \<Rightarrow> Inl NilDereference
             | Some parent \<Rightarrow>
                (let mid = middle m in
                 if mid + 1 > length (Entries node) then Inl IndexOutOfRange
                 else if \<not> isLeaf node \<and> mid + 1 > length (Children node)
                 then Inl IndexOutOfRange
                 else
                   (let left = Node (take mid (Entries node))
                                 (if isLeaf node then [] else take (mid + 1) (Children node));
                        right = Node (drop (mid + 1) (Entries node))
                                 (if isLeaf node then [] else drop (mid + 1) (Children node));
                        insertPosition = fst (search parent (Key (Entries node ! mid)))
                    in if insertPosition < length (Children parent) then
                         (let parent' =
                                Node (insert_at insertPosition (Entries node ! mid) (Entries parent))
                                     (insert_at (insertPosition + 1) right
                                        ((Children parent)[insertPosition := left]))
                          in split m (put_node root (butlast p) parent') (butlast p))
                       else Inl IndexOutOfRange)))))"
  by pat_completeness auto
termination
  by (relation "measure (\<lambda>x. case x of Inl (m, root, p) \<Rightarrow> 2 * length p + 1
                                      | Inr (m, root, p) \<Rightarrow> 2 * length p)")
     (auto simp: neq_Nil_conv)

declare split.simps [simp del] splitNonRoot.simps [simp del]

definition insertIntoLeaf ::
  "nat \<Rightarrow> ('k::linorder, 'v) Node \<Rightarrow> path \<Rightarrow> ('k, 'v) Node \<Rightarrow> ('k, 'v) Entry
     \<Rightarrow> error + (('k, 'v) Node \<times> bool)" where
  "insertIntoLeaf m root p node entry =
     (case search node (Key entry) of
        (insertPosition, found) \<Rightarrow>
          if found then
            Inr (put_node root p (Node ((Entries node)[insertPosition := entry]) (Children node)),
                 False)
          else
            (case split m (put_node root p
                             (Node (insert_at insertPosition entry (Entries node)) (Children node))) p of
               Inl e \<Rightarrow> Inl e
             | Inr root' \<Rightarrow> Inr (root', True)))"

text \<open>
  \<open>insert\<close> descends from \<open>node\<close>, which is the node at path \<open>p\<close> of \<open>root\<close>.
\<close>

fun insert ::
  "nat \<Rightarrow> ('k::linorder, 'v) Node \<Rightarrow> path \<Rightarrow> ('k, 'v) Node \<Rightarrow> ('k, 'v) Entry
     \<Rightarrow> error + (('k, 'v) Node \<times> bool)"
  and insertIntoInternal ::
  "nat \<Rightarrow> ('k::linorder, 'v) Node \<Rightarrow> path \<Rightarrow> ('k, 'v) Node \<Rightarrow> ('k, 'v) Entry
     \<Rightarrow> error + (('k, 'v) Node \<times> bool)"
  where
  "insert m root p node entry =
     (if isLeaf node then insertIntoLeaf m root p node entry
      else insertIntoInternal m root p node entry)"
| "insertIntoInternal m root p node entry =
     (case search node (Key entry) of
        (insertPosition, found) \<Rightarrow>
          if found then
            Inr (put_node root p (Node ((Entries node)[insertPosition := entry]) (Children node)),
                 False)
          else if insertPosition < length (Children node) then
            insert m root (p @ [insertPosition]) (Children node ! insertPosition) entry
          else Inl IndexOutOfRange)"

declare insert.simps [simp del] insertIntoInternal.simps [simp del]

definition Put :: "('k::linorder, 'v) Tree \<Rightarrow> 'k \<Rightarrow> 'v \<Rightarrow> error + ('k, 'v) Tree" where
  "Put tree key val =
     (let entry = Entry key val in
      case Root tree of
        None \<Rightarrow> Inr (tree\<lparr>Root := Some (Node [entry] []), size_n := size_n tree + 1\<rparr>)
      | Some root \<Rightarrow>
          (case insert (m_order tree) root [] root entry of
             Inl e \<Rightarrow> Inl e
           | Inr (root', inserted) \<Rightarrow>
               Inr (tree\<lparr>Root := Some root',
                         size_n := (if inserted then size_n tree + 1 else size_n tree)\<rparr>)))"

text \<open>
  \<open>Get\<close> returns the pair (value, found); the model returns \<open>Some value\<close> for
  (value, true) and \<open>None\<close> for (zero value, false).
\<close>

definition Get :: "('k::linorder, 'v) Tree \<Rightarrow> 'k \<Rightarrow> error + 'v option" where
  "Get tree key =
     (case searchRecursively tree key of
        Inl e \<Rightarrow> Inl e
      | Inr None \<Rightarrow> Inr None
      | Inr (Some (p, index)) \<Rightarrow>
          (case Root tree of
             None \<Rightarrow> Inl NilDereference
           | Some root \<Rightarrow>
               (case get_node root p of
                  None \<Rightarrow> Inl NilDereference
                | Some node \<Rightarrow>
                    if index < length (Entries node) then Inr (Some (Value (Entries node ! index)))
                    else Inl IndexOutOfRange)))"

subsection \<open>Deletion and rebalancing\<close>

definition deleteEntry :: "('k, 'v) Node \<Rightarrow> nat \<Rightarrow> ('k, 'v) Node" where
  "deleteEntry node index =
     Node (take index (Entries node) @ drop (index + 1) (Entries node)) (Children node)"

definition deleteChild :: "('k, 'v) Node \<Rightarrow> nat \<Rightarrow> ('k, 'v) Node" where
  "deleteChild node index =
     (if index \<ge> length (Children node) then node
      else Node (Entries node) (take index (Children node) @ drop (index + 1) (Children node)))"

definition prependChildren :: "('k, 'v) Node \<Rightarrow> ('k, 'v) Node \<Rightarrow> ('k, 'v) Node" where
  "prependChildren fromNode toNode =
     Node (Entries toNode) (Children fromNode @ Children toNode)"

definition appendChildren :: "('k, 'v) Node \<Rightarrow> ('k, 'v) Node \<Rightarrow> ('k, 'v) Node" where
  "appendChildren fromNode toNode =
     Node (Entries toNode) (Children toNode @ Children fromNode)"

text \<open>
  \<open>left\<close> and \<open>right\<close> walk down the first, respectively last, children from the node
  at path \<open>p\<close> and return the path of the leaf they reach. (Their guard
  \<open>tree.Empty()\<close> is false wherever \<open>delete\<close> calls them: \<open>Remove\<close> deletes only
  after \<open>searchRecursively\<close> found the key, which it does not in an empty tree.)
\<close>

function left_loop :: "('k, 'v) Node \<Rightarrow> path \<Rightarrow> path" where
  "left_loop current p =
     (if isLeaf current then p else left_loop (Children current ! 0) (p @ [0]))"
  by pat_completeness auto
termination
  by (relation "measure (\<lambda>(current, p). size current)")
     (auto simp: isLeaf_def size_nth_Children)

function right_loop :: "('k, 'v) Node \<Rightarrow> path \<Rightarrow> path" where
  "right_loop current p =
     (if isLeaf current then p
      else right_loop (Children current ! (length (Children current) - 1))
             (p @ [length (Children current) - 1]))"
  by pat_completeness auto
termination
  by (relation "measure (\<lambda>(current, p). size current)")
     (auto simp: isLeaf_def size_nth_Children)

declare left_loop.simps [simp del] right_loop.simps [simp del]

text \<open>
  \<open>leftSibling\<close> and \<open>rightSibling\<close> read only the parent of their node; they return
  the index of the sibling among the parent's children, \<open>None\<close> for (nil, -1).
\<close>

definition leftSibling :: "('k::linorder, 'v) Node option \<Rightarrow> 'k \<Rightarrow> nat option" where
  "leftSibling parent key =
     (case parent of
        None \<Rightarrow> None
      | Some P \<Rightarrow>
          (let index = fst (search P key) in
           if index \<ge> 1 \<and> index - 1 < length (Children P) then Some (index - 1) else None))"

definition rightSibling :: "('k::linorder, 'v) Node option \<Rightarrow> 'k \<Rightarrow> nat option" where
  "rightSibling parent key =
     (case parent of
        None \<Rightarrow> None
      | Some P \<Rightarrow>
          (let index = fst (search P key) in
           if index + 1 < length (Children P) then Some (index + 1) else None))"

text \<open>
  The four moves of \<open>rebalance\<close>, on the parent \<open>P\<close> of the node: the node is child
  \<open>j\<close> of \<open>P\<close> and the sibling is child \<open>ls\<close> or \<open>rs\<close>. The statements of the source
  are applied one after the other.
\<close>

definition rotateRight :: "('k, 'v) Node \<Rightarrow> nat \<Rightarrow> nat \<Rightarrow> error + ('k, 'v) Node" where
  "rotateRight P j ls =
     (if ls \<ge> length (Entries P) then Inl IndexOutOfRange
      else
        (let P1 = upd_child P j (\<lambda>n. Node (Entries P ! ls # Entries n) (Children n));
             P2 = Node ((Entries P1)[ls := last (Entries (Children P1 ! ls))]) (Children P1);
             P3 = upd_child P2 ls (\<lambda>s. deleteEntry s (length (Entries s) - 1))
         in if \<not> isLeaf (Children P3 ! ls) then
              (let c = last (Children (Children P3 ! ls));
                   P4 = upd_child P3 j (\<lambda>n. Node (Entries n) (c # Children n));
                   P5 = upd_child P4 ls (\<lambda>s. deleteChild s (length (Children s) - 1))
               in Inr P5)
            else Inr P3))"

definition rotateLeft :: "('k, 'v) Node \<Rightarrow> nat \<Rightarrow> nat \<Rightarrow> error + ('k, 'v) Node" where
  "rotateLeft P j rs =
     (if rs - 1 \<ge> length (Entries P) then Inl IndexOutOfRange
      else
        (let P1 = upd_child P j (\<lambda>n. Node (Entries n @ [Entries P ! (rs - 1)]) (Children n));
             P2 = Node ((Entries P1)[rs - 1 := hd (Entries (Children P1 ! rs))]) (Children P1);
             P3 = upd_child P2 rs (\<lambda>s. deleteEntry s 0)
         in if \<not> isLeaf (Children P3 ! rs) then
              (let c = hd (Children (Children P3 ! rs));
                   P4 = upd_child P3 j (\<lambda>n. Node (Entries n) (Children n @ [c]));
                   P5 = upd_child P4 rs (\<lambda>s. deleteChild s 0)
               in Inr P5)
            else Inr P3))"

text \<open>
  The merges return the parent after the merge, the merged node and the key of the
  separator removed from the parent.
\<close>

definition mergeRight ::
  "('k, 'v) Node \<Rightarrow> nat \<Rightarrow> nat \<Rightarrow> error + (('k, 'v) Node \<times> ('k, 'v) Node \<times> 'k)" where
  "mergeRight P j rs =
     (if rs - 1 \<ge> length (Entries P) then Inl IndexOutOfRange
      else
        (let P1 = upd_child P j (\<lambda>n. Node (Entries n @ [Entries P ! (rs - 1)]) (Children n));
             P2 = upd_child P1 j (\<lambda>n. Node (Entries n @ Entries (Children P1 ! rs)) (Children n));
             deletedKey = Key (Entries P2 ! (rs - 1));
             P3 = deleteEntry P2 (rs - 1);
             P4 = upd_child P3 j (\<lambda>n. appendChildren (Children P3 ! rs) n);
             node = Children P4 ! j;
             P5 = deleteChild P4 rs
         in Inr (P5, node, deletedKey)))"

definition mergeLeft ::
  "('k, 'v) Node \<Rightarrow> nat \<Rightarrow> nat \<Rightarrow> error + (('k, 'v) Node \<times> ('k, 'v) Node \<times> 'k)" where
  "mergeLeft P j ls =
     (if ls \<ge> length (Entries P) then Inl IndexOutOfRange
      else
        (let P1 = upd_child P j
                    (\<lambda>n. Node (Entries (Children P ! ls) @ [Entries P ! ls] @ Entries n)
                            (Children n));
             deletedKey = Key (Entries P1 ! ls);
             P2 = deleteEntry P1 ls;
             P3 = upd_child P2 j (\<lambda>n. prependChildren (Children P2 ! ls) n);
             node = Children P3 ! j;
             P4 = deleteChild P3 ls
         in Inr (P4, node, deletedKey)))"

text \<open>
  The borrowing branches of \<open>rebalance\<close>: taken when the sibling exists and has more
  than the minimum of entries, \<open>None\<close> otherwise.
\<close>

definition borrowLeft ::
  "nat \<Rightarrow> ('k, 'v) Node option \<Rightarrow> nat \<Rightarrow> nat option \<Rightarrow> (error + ('k, 'v) Node) option" where
  "borrowLeft m parent j leftS =
     (case (parent, leftS) of
        (Some P, Some ls) \<Rightarrow>
          if length (Entries (Children P ! ls)) > minEntries m then Some (rotateRight P j ls)
          else None
      | _ \<Rightarrow> None)"

definition borrowRight ::
  "nat \<Rightarrow> ('k, 'v) Node option \<Rightarrow> nat \<Rightarrow> nat option \<Rightarrow> (error + ('k, 'v) Node) option" where
  "borrowRight m parent j rightS =
     (case (parent, rightS) of
        (Some P, Some rs) \<Rightarrow>
          if length (Entries (Children P ! rs)) > minEntries m then Some (rotateLeft P j rs)
          else None
      | _ \<Rightarrow> None)"

text \<open>
  The merging branch of \<open>rebalance\<close>: with the right sibling if there is one, else
  with the left sibling if there is one, else nothing. It returns the tree after the
  merge, the merged node and the reference key for the parent.
\<close>

definition mergeWithSibling ::
  "('k, 'v) Node \<Rightarrow> path \<Rightarrow> ('k, 'v) Node option \<Rightarrow> nat \<Rightarrow> nat option \<Rightarrow> nat option
     \<Rightarrow> ('k, 'v) Node \<Rightarrow> 'k \<Rightarrow> error + (('k, 'v) Node \<times> ('k, 'v) Node \<times> 'k)" where
  "mergeWithSibling root p parent j rightS leftS node deletedKey =
     (case (parent, rightS, leftS) of
        (Some P, Some rs, _) \<Rightarrow>
          (case mergeRight P j rs of
             Inl e \<Rightarrow> Inl e
           | Inr (P', node', key') \<Rightarrow> Inr (put_node root (butlast p) P', node', key'))
      | (Some P, None, Some ls) \<Rightarrow>
          (case mergeLeft P j ls of
             Inl e \<Rightarrow> Inl e
           | Inr (P', node', key') \<Rightarrow> Inr (put_node root (butlast p) P', node', key'))
      | _ \<Rightarrow> Inr (root, node, deletedKey))"

definition parent_path :: "path \<Rightarrow> path option" where
  "parent_path p = (if p = [] then None else Some (butlast p))"

function rebalance ::
  "nat \<Rightarrow> ('k::linorder, 'v) Node \<Rightarrow> path option \<Rightarrow> 'k \<Rightarrow> error + ('k, 'v) Node" where
  "rebalance m root None deletedKey = Inr root"
| "rebalance m root (Some p) deletedKey =
     (case get_node root p of
        None \<Rightarrow> Inl NilDereference
      | Some node \<Rightarrow>
          if length (Entries node) \<ge> minEntries m then Inr root
          else
            (let parent = (if p = [] then None else get_node root (butlast p));
                 j = (if p = [] then 0 else last p);
                 leftS = leftSibling parent deletedKey
             in case borrowLeft m parent j leftS of
                  Some r \<Rightarrow>
                    (case r of
                       Inl e \<Rightarrow> Inl e
                     | Inr P' \<Rightarrow> Inr (put_node root (butlast p) P'))
                | None \<Rightarrow>
                  (let rightS = rightSibling parent deletedKey
                   in case borrowRight m parent j rightS of
                        Some r \<Rightarrow>
                          (case r of
                             Inl e \<Rightarrow> Inl e
                           | Inr P' \<Rightarrow> Inr (put_node root (butlast p) P'))
                      | None \<Rightarrow>
                        (case mergeWithSibling root p parent j rightS leftS node deletedKey of
                           Inl e \<Rightarrow> Inl e
                         | Inr (root', node', key') \<Rightarrow>
                             if parent_path p = Some [] \<and> length (Entries root') = 0
                             then Inr node'
                             else rebalance m root' (parent_path p) key'))))"
  by pat_completeness auto
termination
  by (relation "measure (\<lambda>(m, root, po, key). case po of None \<Rightarrow> 0 | Some p \<Rightarrow> Suc (length p))")
     (auto simp: parent_path_def neq_Nil_conv)

declare rebalance.simps(2) [simp del]

definition delete ::
  "nat \<Rightarrow> ('k::linorder, 'v) Node \<Rightarrow> path \<Rightarrow> nat \<Rightarrow> error + ('k, 'v) Node option" where
  "delete m root p index =
     (case get_node root p of
        None \<Rightarrow> Inl NilDereference
      | Some node \<Rightarrow>
          if index \<ge> length (Entries node) then Inl IndexOutOfRange
          else if isLeaf node then
            (let deletedKey = Key (Entries node ! index) in
             case rebalance m (put_node root p (deleteEntry node index)) (Some p) deletedKey of
               Inl e \<Rightarrow> Inl e
             | Inr root' \<Rightarrow>
                 if length (Entries root') = 0 then Inr None else Inr (Some root'))
          else if index \<ge> length (Children node) then Inl IndexOutOfRange
          else
            (let lp = right_loop (Children node ! index) (p @ [index]) in
             case get_node root lp of
               None \<Rightarrow> Inl NilDereference
             | Some leftLargestNode \<Rightarrow>
                 if length (Entries leftLargestNode) = 0 then Inl IndexOutOfRange
                 else
                   (let leftLargestEntryIndex = length (Entries leftLargestNode) - 1;
                        e = Entries leftLargestNode ! leftLargestEntryIndex;
                        root1 = put_node root p
                                  (Node ((Entries node)[index := e]) (Children node));
                        deletedKey = Key e;
                        root2 = put_node root1 lp
                                  (deleteEntry leftLargestNode leftLargestEntryIndex)
                    in case rebalance m root2 (Some lp) deletedKey of
                         Inl e \<Rightarrow> Inl e
                       | Inr root' \<Rightarrow> Inr (Some root'))))"

definition Remove :: "('k::linorder, 'v) Tree \<Rightarrow> 'k \<Rightarrow> error + ('k, 'v) Tree" where
  "Remove tree key =
     (case searchRecursively tree key of
        Inl e \<Rightarrow> Inl e
      | Inr None \<Rightarrow> Inr tree
      | Inr (Some (p, index)) \<Rightarrow>
          (case Root tree of
             None \<Rightarrow> Inl NilDereference
           | Some root \<Rightarrow>
               (case delete (m_order tree) root p index of
                  Inl e \<Rightarrow> Inl e
                | Inr r \<Rightarrow> Inr (tree\<lparr>Root := r, size_n := size_n tree - 1\<rparr>))))"

definition Clear :: "('k, 'v) Tree \<Rightarrow> ('k, 'v) Tree" where
  "Clear tree = tree\<lparr>Root := None, size_n := 0\<rparr>"

subsection \<open>Height\<close>

function height_loop :: "('k, 'v) Node \<Rightarrow> nat" where
  "height_loop node =
     (if length (Children node) = 0 then 1 else 1 + height_loop (Children node ! 0))"
  by pat_completeness auto
termination
  by (relation "measure size") (auto simp: size_nth_Children)

declare height_loop.simps [simp del]

definition height :: "('k, 'v) Node option \<Rightarrow> nat" where
  "height node = (case node of None \<Rightarrow> 0 | Some n \<Rightarrow> height_loop n)"

definition Height :: "('k, 'v) Tree \<Rightarrow> nat" where
  "Height tree = height (Root tree)"

subsection \<open>Ordered traversal\<close>

text \<open>
  Modelled from the spec: the iterator of the B-tree (\<open>Iterator\<close>, \<open>Next\<close>, \<open>Key\<close>,
  \<open>Value\<close>) is outside the modelled files. The spec describes it as a cursor over
  the in-order sequence of the entries, with entries and child subtrees interleaved in
  sorted order across every level. \<open>interleave\<close> visits child \<open>e\<close> and then entry \<open>e\<close>
  for each position, as \<open>output\<close> in the source does.
\<close>

fun interleave :: "'a list list \<Rightarrow> 'a list \<Rightarrow> 'a list" where
  "interleave [] es = es"
| "interleave (c # cs) [] = c"
| "interleave (c # cs) (e # es) = c @ e # interleave cs es"

fun inorder :: "('k, 'v) Node \<Rightarrow> ('k, 'v) Entry list" where
  "inorder (Node es cs) = interleave (map inorder cs) es"

definition Iterator :: "('k, 'v) Tree \<Rightarrow> ('k, 'v) Entry list" where
  "Iterator tree = (case Root tree of None \<Rightarrow> [] | Some root \<Rightarrow> inorder root)"

text \<open>
  \<open>Keys\<close> and \<open>Values\<close> allocate \<open>tree.size\<close> slots and fill them from the iterator:
  an element beyond the allocated slots is an index out of range, and the slots the
  iterator does not reach keep the zero value of the type, here the parameter \<open>zero\<close>.
\<close>

definition fill_slots :: "nat \<Rightarrow> 'a \<Rightarrow> 'a list \<Rightarrow> error + 'a list" where
  "fill_slots n zero xs =
     (if length xs > n then Inl IndexOutOfRange
      else Inr (xs @ replicate (n - length xs) zero))"

definition Keys :: "'k \<Rightarrow> ('k, 'v) Tree \<Rightarrow> error + 'k list" where
  "Keys zero tree = fill_slots (size_n tree) zero (map Key (Iterator tree))"

definition Values :: "'v \<Rightarrow> ('k, 'v) Tree \<Rightarrow> error + 'v list" where
  "Values zero tree = fill_slots (size_n tree) zero (map Value (Iterator tree))"

subsection \<open>Height of the empty tree\<close>

text \<open>
  Claim C8. \<open>Height\<close> on an empty tree (the root is absent) returns 0: the height of
  an absent node is 0, its loop is not entered.
\<close>

theorem Height_empty: "Root tree = None \<Longrightarrow> Height tree = 0 \<and> height None = 0"
  by (simp add: Height_def height_def)

theorem Height_empty_witness:
  "Root \<lparr>Root = None :: (nat, nat) Node option, size_n = 0, m_order = 3\<rparr> = None
   \<and> Height \<lparr>Root = None :: (nat, nat) Node option, size_n = 0, m_order = 3\<rparr> = 0
   \<and> NewWith 3 = Inr \<lparr>Root = None :: (nat, nat) Node option, size_n = 0, m_order = 3\<rparr>"
  using Height_empty [of "\<lparr>Root = None :: (nat, nat) Node option, size_n = 0, m_order = 3\<rparr>"]
  by (simp add: NewWith_def Height_def height_def)

section \<open>Serialization of the B-tree (trees/btree/serialization.go)\<close>

text \<open>
  \<open>json.Marshal\<close>, \<open>json.Unmarshal\<close> and \<open>utils.ToString\<close> are outside the modelled
  files; they are the parameters \<open>marshal\<close>, \<open>unmarshal\<close> and \<open>toString\<close>. A decoded
  Go map is a finite map, and the order in which \<open>range\<close> visits it, which Go leaves
  unspecified, is the parameter \<open>range_order\<close>.
\<close>

definition ToJSON ::
  "('k \<Rightarrow> string) \<Rightarrow> ((string, 'v) fmap \<Rightarrow> 'e + 'd) \<Rightarrow> ('k, 'v) Tree \<Rightarrow> 'e + 'd" where
  "ToJSON toString marshal tree =
     marshal (foldl (\<lambda>elements e. fmupd (toString (Key e)) (Value e) elements)
                fmempty (Iterator tree))"

fun put_all ::
  "('k::linorder, 'v) Tree \<Rightarrow> ('k \<times> 'v) list \<Rightarrow> error + ('k, 'v) Tree" where
  "put_all tree [] = Inr tree"
| "put_all tree ((key, val) # rest) =
     (case Put tree key val of Inl e \<Rightarrow> Inl e | Inr tree' \<Rightarrow> put_all tree' rest)"

text \<open>
  \<open>FromJSON\<close> returns the tree as it has left it and the error of \<open>json.Unmarshal\<close>,
  \<open>None\<close> for nil.
\<close>

definition FromJSON ::
  "('d \<Rightarrow> 'e + ('k::linorder, 'v) fmap) \<Rightarrow> (('k, 'v) fmap \<Rightarrow> ('k \<times> 'v) list)
     \<Rightarrow> ('k, 'v) Tree \<Rightarrow> 'd \<Rightarrow> error + (('k, 'v) Tree \<times> 'e option)" where
  "FromJSON unmarshal range_order tree data =
     (case unmarshal data of
        Inl err \<Rightarrow> Inr (tree, Some err)
      | Inr elements \<Rightarrow>
          (case put_all (Clear tree) (range_order elements) of
             Inl e \<Rightarrow> Inl e
           | Inr tree' \<Rightarrow> Inr (tree', None)))"

text \<open>
  Claim C6. When the input is not a well-formed encoding, that is \<open>json.Unmarshal\<close>
  returns an error, \<open>FromJSON\<close> leaves the tree as it was and returns that error; and
  whenever \<open>FromJSON\<close> returns anything else than the unchanged tree with an error, the
  input was decoded successfully.
\<close>

theorem FromJSON_malformed:
  "(unmarshal data = Inl err \<longrightarrow>
      FromJSON unmarshal range_order tree data = Inr (tree, Some err))
   \<and> (FromJSON unmarshal range_order tree data \<noteq> Inr (tree, Some err) \<longrightarrow>
      unmarshal data \<noteq> Inl err)"
  by (auto simp: FromJSON_def)

theorem FromJSON_malformed_witness:
  "(\<lambda>d::nat. if d = 0 then Inl ''unexpected end of JSON input''
               else Inr (fmupd (1::nat) (10::nat) fmempty)) 0
     = Inl ''unexpected end of JSON input''
   \<and> FromJSON (\<lambda>d::nat. if d = 0 then Inl ''unexpected end of JSON input''
                          else Inr (fmupd (1::nat) (10::nat) fmempty))
        (\<lambda>m. [(1, 10)])
        \<lparr>Root = Some (Node [Entry 5 50] []), size_n = 1, m_order = 3\<rparr> 0
     = Inr (\<lparr>Root = Some (Node [Entry 5 50] []), size_n = 1, m_order = 3\<rparr>,
            Some ''unexpected end of JSON input'')"
  using FromJSON_malformed [of "\<lambda>d::nat. if d = 0 then Inl ''unexpected end of JSON input''
                          else Inr (fmupd (1::nat) (10::nat) fmempty)" 0
      "''unexpected end of JSON input''" "\<lambda>m. [(1, 10)]"
      "\<lparr>Root = Some (Node [Entry 5 50] []), size_n = 1, m_order = 3\<rparr>"]
  by simp

section \<open>Hash maps (maps/hashmap/hashmap.go)\<close>

text \<open>
  The hash map wraps Go's native map, here a finite map. \<open>Get\<close> returns the pair
  (value, found); the model returns \<open>Some value\<close> for (value, true) and \<open>None\<close> for
  (zero value, false).
\<close>

type_synonym ('k, 'v) hashmap = "('k, 'v) fmap"

definition hashmap_New :: "('k, 'v) hashmap" where
  "hashmap_New = fmempty"

definition hashmap_Put :: "('k, 'v) hashmap \<Rightarrow> 'k \<Rightarrow> 'v \<Rightarrow> ('k, 'v) hashmap" where
  "hashmap_Put m key val = fmupd key val m"

definition hashmap_Get :: "('k, 'v) hashmap \<Rightarrow> 'k \<Rightarrow> 'v option" where
  "hashmap_Get m key = fmlookup m key"

definition hashmap_Remove :: "('k, 'v) hashmap \<Rightarrow> 'k \<Rightarrow> ('k, 'v) hashmap" where
  "hashmap_Remove m key = fmdrop key m"

definition hashmap_Size :: "('k, 'v) hashmap \<Rightarrow> nat" where
  "hashmap_Size m = fcard (fmdom m)"

section \<open>Bidirectional hash map (hashbidimap)\<close>

record ('k, 'v) BidiMap =
  forwardMap :: "('k, 'v) hashmap"
  inverseMap :: "('v, 'k) hashmap"

definition hashbidimap_New :: "('k, 'v) BidiMap" where
  "hashbidimap_New = \<lparr>forwardMap = hashmap_New, inverseMap = hashmap_New\<rparr>"

definition hashbidimap_Put :: "('k, 'v) BidiMap \<Rightarrow> 'k \<Rightarrow> 'v \<Rightarrow> ('k, 'v) BidiMap" where
  "hashbidimap_Put m key val =
     (let inverse1 = (case hashmap_Get (forwardMap m) key of
                        Some valueByKey \<Rightarrow> hashmap_Remove (inverseMap m) valueByKey
                      | None \<Rightarrow> inverseMap m);
          forward1 = (case hashmap_Get inverse1 val of
                        Some keyByValue \<Rightarrow> hashmap_Remove (forwardMap m) keyByValue
                      | None \<Rightarrow> forwardMap m)
      in \<lparr>forwardMap = hashmap_Put forward1 key val,
          inverseMap = hashmap_Put inverse1 val key\<rparr>)"

definition hashbidimap_Get :: "('k, 'v) BidiMap \<Rightarrow> 'k \<Rightarrow> 'v option" where
  "hashbidimap_Get m key = hashmap_Get (forwardMap m) key"

definition hashbidimap_GetKey :: "('k, 'v) BidiMap \<Rightarrow> 'v \<Rightarrow> 'k option" where
  "hashbidimap_GetKey m val = hashmap_Get (inverseMap m) val"

definition hashbidimap_Remove :: "('k, 'v) BidiMap \<Rightarrow> 'k \<Rightarrow> ('k, 'v) BidiMap" where
  "hashbidimap_Remove m key =
     (case hashmap_Get (forwardMap m) key of
        Some val \<Rightarrow> \<lparr>forwardMap = hashmap_Remove (forwardMap m) key,
                      inverseMap = hashmap_Remove (inverseMap m) val\<rparr>
      | None \<Rightarrow> m)"

definition hashbidimap_Size :: "('k, 'v) BidiMap \<Rightarrow> nat" where
  "hashbidimap_Size m = hashmap_Size (forwardMap m)"

datatype ('k, 'v) bidi_op = BidiPut 'k 'v | BidiRemove 'k

fun bidi_apply :: "('k, 'v) BidiMap \<Rightarrow> ('k, 'v) bidi_op \<Rightarrow> ('k, 'v) BidiMap" where
  "bidi_apply m (BidiPut k v) = hashbidimap_Put m k v"
| "bidi_apply m (BidiRemove k) = hashbidimap_Remove m k"

definition bidi_run :: "('k, 'v) bidi_op list \<Rightarrow> ('k, 'v) BidiMap" where
  "bidi_run ops = foldl bidi_apply hashbidimap_New ops"

definition inverse_of :: "('k, 'v) BidiMap \<Rightarrow> bool" where
  "inverse_of m =
     ((\<forall>k v. fmlookup (forwardMap m) k = Some v \<longrightarrow> fmlookup (inverseMap m) v = Some k) \<and>
      (\<forall>k v. fmlookup (inverseMap m) v = Some k \<longrightarrow> fmlookup (forwardMap m) k = Some v))"


lemma inverse_of_New: "inverse_of hashbidimap_New"
  by (simp add: inverse_of_def hashbidimap_New_def hashmap_New_def)

lemma inverse_ofD1:
  "inverse_of m \<Longrightarrow> fmlookup (forwardMap m) k = Some v \<Longrightarrow> fmlookup (inverseMap m) v = Some k"
  unfolding inverse_of_def by blast

lemma inverse_ofD2:
  "inverse_of m \<Longrightarrow> fmlookup (inverseMap m) v = Some k \<Longrightarrow> fmlookup (forwardMap m) k = Some v"
  unfolding inverse_of_def by blast

text \<open>The two maps of \<open>Put\<close>, written out.\<close>

lemma forwardMap_Put:
  "fmlookup (forwardMap (hashbidimap_Put m key val)) k =
     (if k = key then Some val
      else if fmlookup (inverseMap m) val = Some k \<and> fmlookup (forwardMap m) key \<noteq> Some val
      then None else fmlookup (forwardMap m) k)"
  by (cases "fmlookup (forwardMap m) key"; cases "fmlookup (inverseMap m) val")
     (auto simp: hashbidimap_Put_def hashmap_Get_def hashmap_Remove_def hashmap_Put_def Let_def)

lemma inverseMap_Put:
  "fmlookup (inverseMap (hashbidimap_Put m key val)) v =
     (if v = val then Some key
      else if fmlookup (forwardMap m) key = Some v then None
      else fmlookup (inverseMap m) v)"
  by (cases "fmlookup (forwardMap m) key")
     (auto simp: hashbidimap_Put_def hashmap_Get_def hashmap_Remove_def hashmap_Put_def Let_def)


lemma forward_Put:
  assumes "inverse_of m"
  shows "fmlookup (forwardMap (hashbidimap_Put m key val)) k = Some v \<longleftrightarrow>
         (k = key \<and> v = val) \<or> (k \<noteq> key \<and> v \<noteq> val \<and> fmlookup (forwardMap m) k = Some v)"
proof (cases "k = key")
  case True
  then show ?thesis by (auto simp: forwardMap_Put)
next
  case False
  have a: "v \<noteq> val" if "fmlookup (forwardMap m) k = Some v"
    "\<not> (fmlookup (inverseMap m) val = Some k \<and> fmlookup (forwardMap m) key \<noteq> Some val)"
  proof
    assume "v = val"
    with that(1) have "fmlookup (inverseMap m) val = Some k"
      using inverse_ofD1 [OF assms] by blast
    with that(2) have "fmlookup (forwardMap m) key = Some val" by blast
    then have "fmlookup (inverseMap m) val = Some key"
      using inverse_ofD1 [OF assms] by blast
    with \<open>fmlookup (inverseMap m) val = Some k\<close> False show False by simp
  qed
  have b: "v = val" if "fmlookup (forwardMap m) k = Some v" "fmlookup (inverseMap m) val = Some k"
  proof -
    from that(2) have "fmlookup (forwardMap m) k = Some val"
      using inverse_ofD2 [OF assms] by blast
    with that(1) show ?thesis by simp
  qed
  have c: "fmlookup (inverseMap m) val = Some k" if "fmlookup (forwardMap m) k = Some val"
    using that inverse_ofD1 [OF assms] by blast
  have d: "fmlookup (forwardMap m) key \<noteq> Some val" if "fmlookup (forwardMap m) k = Some val"
  proof
    assume "fmlookup (forwardMap m) key = Some val"
    then have "fmlookup (inverseMap m) val = Some key"
      using inverse_ofD1 [OF assms] by blast
    with c [OF that] False show False by simp
  qed
  show ?thesis
  proof (cases "fmlookup (inverseMap m) val = Some k \<and> fmlookup (forwardMap m) key \<noteq> Some val")
    case True
    with False b show ?thesis by (auto simp: forwardMap_Put)
  next
    case F2: False
    with False a show ?thesis by (auto simp: forwardMap_Put)
  qed
qed

lemma inverse_Put:
  assumes "inverse_of m"
  shows "fmlookup (inverseMap (hashbidimap_Put m key val)) v = Some k \<longleftrightarrow>
         (k = key \<and> v = val) \<or> (k \<noteq> key \<and> v \<noteq> val \<and> fmlookup (inverseMap m) v = Some k)"
proof (cases "v = val")
  case True
  then show ?thesis by (auto simp: inverseMap_Put)
next
  case False
  have a: "k = key \<longleftrightarrow> fmlookup (forwardMap m) key = Some v" if "fmlookup (inverseMap m) v = Some k"
  proof
    assume "k = key"
    with that show "fmlookup (forwardMap m) key = Some v"
      using inverse_ofD2 [OF assms] by blast
  next
    assume "fmlookup (forwardMap m) key = Some v"
    then have "fmlookup (inverseMap m) v = Some key"
      using inverse_ofD1 [OF assms] by blast
    with that show "k = key" by simp
  qed
  show ?thesis
  proof (cases "fmlookup (forwardMap m) key = Some v")
    case True
    with False a show ?thesis by (auto simp: inverseMap_Put)
  next
    case F2: False
    with False a show ?thesis by (auto simp: inverseMap_Put)
  qed
qed

lemma inverse_of_Put:
  assumes "inverse_of m"
  shows "inverse_of (hashbidimap_Put m key val)"
proof -
  have "fmlookup (forwardMap (hashbidimap_Put m key val)) k = Some v \<longleftrightarrow>
        fmlookup (inverseMap (hashbidimap_Put m key val)) v = Some k" for k v
    unfolding forward_Put [OF assms] inverse_Put [OF assms]
    using inverse_ofD1 [OF assms, of k v] inverse_ofD2 [OF assms, of v k] by blast
  then show ?thesis unfolding inverse_of_def by blast
qed

lemma inverse_of_Remove:
  assumes "inverse_of m"
  shows "inverse_of (hashbidimap_Remove m key)"
proof (cases "fmlookup (forwardMap m) key")
  case None
  with assms show ?thesis by (simp add: hashbidimap_Remove_def hashmap_Get_def)
next
  case (Some val)
  have r: "hashbidimap_Remove m key =
      \<lparr>forwardMap = fmdrop key (forwardMap m), inverseMap = fmdrop val (inverseMap m)\<rparr>"
    using Some by (simp add: hashbidimap_Remove_def hashmap_Get_def hashmap_Remove_def)
  have "fmlookup (fmdrop key (forwardMap m)) k = Some v \<longleftrightarrow>
        fmlookup (fmdrop val (inverseMap m)) v = Some k" for k v
  proof -
    have "fmlookup (forwardMap m) k = Some v \<longleftrightarrow> fmlookup (inverseMap m) v = Some k"
      using inverse_ofD1 [OF assms, of k v] inverse_ofD2 [OF assms, of v k] by blast
    moreover have "k = key \<longleftrightarrow> v = val" if "fmlookup (forwardMap m) k = Some v"
      using that Some inverse_ofD1 [OF assms, of k v] inverse_ofD1 [OF assms, of key val]
      by auto
    ultimately show ?thesis by auto
  qed
  then show ?thesis unfolding r inverse_of_def by simp
qed

lemma inverse_of_foldl: "inverse_of m \<Longrightarrow> inverse_of (foldl bidi_apply m ops)"
proof (induction ops arbitrary: m)
  case Nil
  then show ?case by simp
next
  case (Cons a ops)
  then show ?case by (cases a) (simp_all add: inverse_of_Put inverse_of_Remove)
qed

lemma inverse_of_size:
  assumes "inverse_of m"
  shows "hashmap_Size (forwardMap m) = hashmap_Size (inverseMap m)"
proof -
  let ?f = "\<lambda>k. the (fmlookup (forwardMap m) k)"
  have "bij_betw ?f (fset (fmdom (forwardMap m))) (fset (fmdom (inverseMap m)))"
  proof (rule bij_betwI')
    fix x y assume "x \<in> fset (fmdom (forwardMap m))" "y \<in> fset (fmdom (forwardMap m))"
    then obtain a b where ab: "fmlookup (forwardMap m) x = Some a" "fmlookup (forwardMap m) y = Some b"
      by (meson fmdomE)
    have "fmlookup (inverseMap m) a = Some x" "fmlookup (inverseMap m) b = Some y"
      using ab inverse_ofD1 [OF assms] by blast+
    with ab have "a = b \<longleftrightarrow> x = y" by auto
    with ab show "(?f x = ?f y) = (x = y)" by simp
  next
    fix x assume "x \<in> fset (fmdom (forwardMap m))"
    then obtain a where a: "fmlookup (forwardMap m) x = Some a" by (meson fmdomE)
    then have "fmlookup (inverseMap m) a = Some x"
      using inverse_ofD1 [OF assms] by blast
    then have "a \<in> fset (fmdom (inverseMap m))" by (rule fmdomI)
    with a show "?f x \<in> fset (fmdom (inverseMap m))" by simp
  next
    fix y assume "y \<in> fset (fmdom (inverseMap m))"
    then obtain a where a: "fmlookup (inverseMap m) y = Some a" by (meson fmdomE)
    then have b: "fmlookup (forwardMap m) a = Some y"
      using inverse_ofD2 [OF assms] by blast
    then have "a \<in> fset (fmdom (forwardMap m))" by (rule fmdomI)
    moreover from b have "y = ?f a" by simp
    ultimately show "\<exists>x \<in> fset (fmdom (forwardMap m)). y = ?f x" by blast
  qed
  then have "card (fset (fmdom (forwardMap m))) = card (fset (fmdom (inverseMap m)))"
    by (rule bij_betw_same_card)
  then show ?thesis by (simp add: hashmap_Size_def fcard.rep_eq)
qed


text \<open>
  Claim C10. \<open>Put\<close> of the hash-backed bidirectional map first removes the existing
  pairing of the key and the existing pairing of the value, so after every sequence of
  \<open>Put\<close> and \<open>Remove\<close> from the empty map the two maps are inverses of each other:
  \<open>Get k\<close> is (v, true) exactly when \<open>GetKey v\<close> is (k, true), both maps have the same
  size, and after a further \<open>Put key val\<close> the pair is found in both directions while no
  other key has the value and no other value has the key.
\<close>

theorem hashbidimap_inverse:
  "(hashbidimap_Get (bidi_run ops) k = Some v \<longleftrightarrow> hashbidimap_GetKey (bidi_run ops) v = Some k)
   \<and> hashmap_Size (forwardMap (bidi_run ops)) = hashmap_Size (inverseMap (bidi_run ops))
   \<and> hashbidimap_Get (hashbidimap_Put (bidi_run ops) key val) key = Some val
   \<and> hashbidimap_GetKey (hashbidimap_Put (bidi_run ops) key val) val = Some key
   \<and> (k \<noteq> key \<longrightarrow> hashbidimap_Get (hashbidimap_Put (bidi_run ops) key val) k \<noteq> Some val)
   \<and> (v \<noteq> val \<longrightarrow> hashbidimap_GetKey (hashbidimap_Put (bidi_run ops) key val) v \<noteq> Some key)"
proof -
  have inv: "inverse_of (bidi_run ops)"
    unfolding bidi_run_def by (rule inverse_of_foldl [OF inverse_of_New])
  have "hashbidimap_Get (bidi_run ops) k = Some v \<longleftrightarrow> hashbidimap_GetKey (bidi_run ops) v = Some k"
    unfolding hashbidimap_Get_def hashbidimap_GetKey_def hashmap_Get_def
    using inverse_ofD1 [OF inv, of k v] inverse_ofD2 [OF inv, of v k] by blast
  moreover note inverse_of_size [OF inv]
  moreover have "hashbidimap_Get (hashbidimap_Put (bidi_run ops) key val) key = Some val"
    by (simp add: hashbidimap_Get_def hashmap_Get_def forwardMap_Put)
  moreover have "hashbidimap_GetKey (hashbidimap_Put (bidi_run ops) key val) val = Some key"
    by (simp add: hashbidimap_GetKey_def hashmap_Get_def inverseMap_Put)
  moreover have "k \<noteq> key \<longrightarrow> hashbidimap_Get (hashbidimap_Put (bidi_run ops) key val) k \<noteq> Some val"
    unfolding hashbidimap_Get_def hashmap_Get_def forward_Put [OF inv] by blast
  moreover have "v \<noteq> val \<longrightarrow> hashbidimap_GetKey (hashbidimap_Put (bidi_run ops) key val) v \<noteq> Some key"
    unfolding hashbidimap_GetKey_def hashmap_Get_def inverse_Put [OF inv] by blast
  ultimately show ?thesis by blast
qed

theorem hashbidimap_inverse_witness:
  "hashbidimap_Get (bidi_run [BidiPut (1::nat) (10::nat), BidiPut 2 10, BidiPut 2 20, BidiRemove 1]) 2 = Some 20
   \<and> hashbidimap_GetKey (bidi_run [BidiPut (1::nat) (10::nat), BidiPut 2 10, BidiPut 2 20, BidiRemove 1]) 20 = Some 2
   \<and> (1::nat) \<noteq> 2
   \<and> hashbidimap_Get (hashbidimap_Put (bidi_run [BidiPut (1::nat) (10::nat), BidiPut 2 10, BidiPut 2 20, BidiRemove 1]) 2 30) 1 \<noteq> Some 30"
proof -
  let ?ops = "[BidiPut (1::nat) (10::nat), BidiPut 2 10, BidiPut 2 20, BidiRemove 1]"
  have g: "hashbidimap_Get (bidi_run ?ops) 2 = Some 20"
    by (simp add: bidi_run_def hashbidimap_New_def hashmap_New_def hashbidimap_Get_def
        hashmap_Get_def forwardMap_Put hashbidimap_Remove_def hashmap_Remove_def)
  have n: "(1::nat) \<noteq> 2" by simp
  from g n hashbidimap_inverse [of ?ops 2 20 2 30] hashbidimap_inverse [of ?ops 1 20 2 30]
  show ?thesis by blast
qed

section \<open>Linked hash map (linkedhashmap)\<close>

text \<open>
  Modelled from the spec: the doubly-linked list holding the ordering of the keys is
  outside the modelled files. The map preserves insertion order, so the list is a
  sequence: \<open>Append\<close> adds at its end, \<open>IndexOf\<close> and \<open>Remove\<close> take out the first
  occurrence, \<open>Values\<close> lists it and \<open>Size\<close> is its length.
\<close>

record ('k, 'v) LinkedHashMap =
  table :: "('k, 'v) fmap"
  ordering :: "'k list"

definition linkedhashmap_New :: "('k, 'v) LinkedHashMap" where
  "linkedhashmap_New = \<lparr>table = fmempty, ordering = []\<rparr>"

definition linkedhashmap_Put :: "('k, 'v) LinkedHashMap \<Rightarrow> 'k \<Rightarrow> 'v \<Rightarrow> ('k, 'v) LinkedHashMap" where
  "linkedhashmap_Put m key val =
     \<lparr>table = fmupd key val (table m),
      ordering = (if fmlookup (table m) key = None then ordering m @ [key] else ordering m)\<rparr>"

text \<open>
  \<open>m.table[key]\<close> is the zero value of the value type when the key is absent; the zero
  value is the parameter \<open>zero\<close>.
\<close>

definition linkedhashmap_Get :: "'v \<Rightarrow> ('k, 'v) LinkedHashMap \<Rightarrow> 'k \<Rightarrow> 'v \<times> bool" where
  "linkedhashmap_Get zero m key =
     (let val = (case fmlookup (table m) key of None \<Rightarrow> zero | Some v \<Rightarrow> v);
          found = (val \<noteq> zero)
      in (val, found))"

definition linkedhashmap_Remove :: "('k, 'v) LinkedHashMap \<Rightarrow> 'k \<Rightarrow> ('k, 'v) LinkedHashMap" where
  "linkedhashmap_Remove m key =
     (if fmlookup (table m) key \<noteq> None
      then \<lparr>table = fmdrop key (table m), ordering = remove1 key (ordering m)\<rparr>
      else m)"

definition linkedhashmap_Size :: "('k, 'v) LinkedHashMap \<Rightarrow> nat" where
  "linkedhashmap_Size m = length (ordering m)"

definition linkedhashmap_Keys :: "('k, 'v) LinkedHashMap \<Rightarrow> 'k list" where
  "linkedhashmap_Keys m = ordering m"

datatype ('k, 'v) map_op = MapPut 'k 'v | MapRemove 'k

fun linkedhashmap_apply :: "('k, 'v) LinkedHashMap \<Rightarrow> ('k, 'v) map_op \<Rightarrow> ('k, 'v) LinkedHashMap" where
  "linkedhashmap_apply m (MapPut k v) = linkedhashmap_Put m k v"
| "linkedhashmap_apply m (MapRemove k) = linkedhashmap_Remove m k"

definition linkedhashmap_run :: "('k, 'v) map_op list \<Rightarrow> ('k, 'v) LinkedHashMap" where
  "linkedhashmap_run ops = foldl linkedhashmap_apply linkedhashmap_New ops"

definition ordering_ok :: "('k, 'v) LinkedHashMap \<Rightarrow> bool" where
  "ordering_ok m = (distinct (ordering m) \<and> set (ordering m) = fset (fmdom (table m)))"

lemma ordering_ok_New: "ordering_ok linkedhashmap_New"
  by (simp add: ordering_ok_def linkedhashmap_New_def)

lemma ordering_ok_Put:
  assumes "ordering_ok m"
  shows "ordering_ok (linkedhashmap_Put m k v)"
proof (cases "fmlookup (table m) k")
  case None
  then have "k \<notin> fset (fmdom (table m))" by (simp add: fmdom_notI)
  with assms None show ?thesis
    by (simp add: ordering_ok_def linkedhashmap_Put_def)
next
  case (Some a)
  then have "k \<in> fset (fmdom (table m))" by (simp add: fmdomI)
  with assms Some show ?thesis
    by (simp add: ordering_ok_def linkedhashmap_Put_def insert_absorb)
qed

lemma ordering_ok_Remove:
  assumes "ordering_ok m"
  shows "ordering_ok (linkedhashmap_Remove m k)"
proof (cases "fmlookup (table m) k")
  case None
  with assms show ?thesis by (simp add: linkedhashmap_Remove_def)
next
  case (Some a)
  with assms show ?thesis
    by (simp add: ordering_ok_def linkedhashmap_Remove_def)
qed

lemma ordering_ok_foldl: "ordering_ok m \<Longrightarrow> ordering_ok (foldl linkedhashmap_apply m ops)"
proof (induction ops arbitrary: m)
  case Nil
  then show ?case by simp
next
  case (Cons a ops)
  then show ?case by (cases a) (simp_all add: ordering_ok_Put ordering_ok_Remove)
qed

text \<open>
  Claim C9. \<open>Get\<close> of the linked hash map reports found exactly when the value stored
  under the key (the zero value when the key is absent) differs from the zero value.
  So after every sequence of \<open>Put\<close> and \<open>Remove\<close> from the empty map, a key stored with
  the zero value is reported as not found although it is among \<open>Keys\<close> and \<open>Size\<close>
  counts it.
\<close>

theorem linkedhashmap_Get_found:
  "snd (linkedhashmap_Get zero m k) =
     ((case fmlookup (table m) k of None \<Rightarrow> zero | Some v \<Rightarrow> v) \<noteq> zero)
   \<and> (fmlookup (table (linkedhashmap_run ops)) k = Some zero \<longrightarrow>
        linkedhashmap_Get zero (linkedhashmap_run ops) k = (zero, False)
        \<and> k \<in> set (linkedhashmap_Keys (linkedhashmap_run ops))
        \<and> linkedhashmap_Size (linkedhashmap_run ops)
            = card (set (linkedhashmap_Keys (linkedhashmap_run ops))))"
proof -
  have ok: "ordering_ok (linkedhashmap_run ops)"
    unfolding linkedhashmap_run_def by (rule ordering_ok_foldl [OF ordering_ok_New])
  have "snd (linkedhashmap_Get zero m k) =
     ((case fmlookup (table m) k of None \<Rightarrow> zero | Some v \<Rightarrow> v) \<noteq> zero)"
    by (simp add: linkedhashmap_Get_def Let_def)
  moreover have "linkedhashmap_Get zero (linkedhashmap_run ops) k = (zero, False)"
    if "fmlookup (table (linkedhashmap_run ops)) k = Some zero"
    using that by (simp add: linkedhashmap_Get_def)
  moreover have "k \<in> set (linkedhashmap_Keys (linkedhashmap_run ops))"
    if "fmlookup (table (linkedhashmap_run ops)) k = Some zero"
    using that ok by (simp add: ordering_ok_def linkedhashmap_Keys_def fmdomI)
  moreover have "linkedhashmap_Size (linkedhashmap_run ops)
            = card (set (linkedhashmap_Keys (linkedhashmap_run ops)))"
  proof -
    from ok have "distinct (ordering (linkedhashmap_run ops))"
      by (simp add: ordering_ok_def)
    then show ?thesis
      by (simp add: linkedhashmap_Size_def linkedhashmap_Keys_def distinct_card)
  qed
  ultimately show ?thesis by blast
qed

theorem linkedhashmap_Get_found_witness:
  "fmlookup (table (linkedhashmap_run [MapPut (1::nat) (5::int), MapPut 2 0])) 2 = Some 0
   \<and> linkedhashmap_Get 0 (linkedhashmap_run [MapPut (1::nat) (5::int), MapPut 2 0]) 2 = (0, False)
   \<and> 2 \<in> set (linkedhashmap_Keys (linkedhashmap_run [MapPut (1::nat) (5::int), MapPut 2 0]))
   \<and> linkedhashmap_Size (linkedhashmap_run [MapPut (1::nat) (5::int), MapPut 2 0]) = 2"
proof -
  let ?ops = "[MapPut (1::nat) (5::int), MapPut 2 0]"
  have t: "fmlookup (table (linkedhashmap_run ?ops)) 2 = Some 0"
    by (simp add: linkedhashmap_run_def linkedhashmap_New_def linkedhashmap_Put_def)
  have s: "linkedhashmap_Size (linkedhashmap_run ?ops) = 2"
    by (simp add: linkedhashmap_run_def linkedhashmap_New_def linkedhashmap_Put_def
        linkedhashmap_Size_def)
  from t s linkedhashmap_Get_found [of 0 "linkedhashmap_run ?ops" 2 ?ops]
  show ?thesis by blast
qed

section \<open>Correctness of the search within a node\<close>

definition sorted_keys :: "('k::linorder, 'v) Entry list \<Rightarrow> bool" where
  "sorted_keys es = sorted_wrt (<) (map Key es)"

lemma sorted_keys_nth:
  "sorted_keys es \<Longrightarrow> i < j \<Longrightarrow> j < length es \<Longrightarrow> Key (es ! i) < Key (es ! j)"
  by (simp add: sorted_keys_def sorted_wrt_iff_nth_less)

lemma Comparator_pos [simp]: "(0 < Comparator a b) = (b < a)"
  by (auto simp: Comparator_def)

lemma Comparator_neg [simp]: "(Comparator a b < 0) = (a < b)"
  by (auto simp: Comparator_def)

lemma search_loop_spec:
  assumes "sorted_keys es" "0 \<le> low" "low \<le> high + 1" "high < int (length es)"
    and "\<forall>j. j < nat low \<longrightarrow> Key (es ! j) < key"
    and "\<forall>j. nat (high + 1) \<le> j \<and> j < length es \<longrightarrow> key < Key (es ! j)"
    and "search_loop es key low high = (i, b)"
  shows "(b \<longrightarrow> i < length es \<and> Key (es ! i) = key) \<and>
         (\<not> b \<longrightarrow> i \<le> length es \<and> (\<forall>j<i. Key (es ! j) < key) \<and>
                 (\<forall>j. i \<le> j \<and> j < length es \<longrightarrow> key < Key (es ! j)))"
  using assms
proof (induction es key low high rule: search_loop.induct)
  case (1 es key low high)
  show ?case
  proof (cases "low \<le> high")
    case False
    with "1.prems" have "i = nat low" "\<not> b" "low = high + 1"
      by (simp_all add: search_loop.simps [of es key low high])
    with "1.prems" show ?thesis by auto
  next
    case True
    define mid where "mid = (high + low) div 2"
    have mid: "low \<le> mid" "mid \<le> high" using True by (auto simp: mid_def)
    then have midn: "nat mid < length es" "0 \<le> mid" using "1.prems" by auto
    consider (gt) "Key (es ! nat mid) < key" | (lt) "key < Key (es ! nat mid)"
      | (eq) "Key (es ! nat mid) = key"
      by (meson linorder_less_linear)
    then show ?thesis
    proof cases
      case gt
      have eq: "search_loop es key (mid + 1) high = (i, b)"
        using "1.prems"(7) True gt
        by (simp add: search_loop.simps [of es key low high] mid_def Let_def)
      have below: "\<forall>j. j < nat (mid + 1) \<longrightarrow> Key (es ! j) < key"
      proof (intro allI impI)
        fix j assume "j < nat (mid + 1)"
        then have "j < nat mid \<or> j = nat mid" using midn by auto
        then show "Key (es ! j) < key"
          using sorted_keys_nth [OF "1.prems"(1), of j "nat mid"] midn gt by auto
      qed
      show ?thesis
        using "1.IH"(1) [OF True mid_def refl _ "1.prems"(1) _ _ "1.prems"(4) below "1.prems"(6) eq]
          gt mid midn by simp
    next
      case lt
      have ngt: "\<not> Key (es ! nat mid) < key" using lt by simp
      have eq: "search_loop es key low (mid - 1) = (i, b)"
        using "1.prems"(7) True lt ngt
        by (simp add: search_loop.simps [of es key low high] mid_def Let_def)
      have above: "\<forall>j. nat (mid - 1 + 1) \<le> j \<and> j < length es \<longrightarrow> key < Key (es ! j)"
      proof (intro allI impI)
        fix j assume "nat (mid - 1 + 1) \<le> j \<and> j < length es"
        then have j: "j < length es" "nat mid < j \<or> j = nat mid" by auto
        then show "key < Key (es ! j)"
          using sorted_keys_nth [OF "1.prems"(1), of "nat mid" j] lt by auto
      qed
      have nlt: "\<not> 0 < Comparator key (Key (es ! nat mid))" using lt by simp
      show ?thesis
        using "1.IH"(2) [OF True mid_def refl nlt _ "1.prems"(1,2) _ _ "1.prems"(5) above eq]
          lt mid midn "1.prems"(4) by simp
    next
      case eq
      then have "search_loop es key low high = (nat mid, True)"
        using True by (simp add: search_loop.simps [of es key low high] mid_def Let_def)
      with "1.prems"(7) midn eq show ?thesis by simp
    qed
  qed
qed


lemma search_loop_found:
  "search_loop es key low high = (i, True) \<Longrightarrow> 0 \<le> low \<Longrightarrow> high < int (length es)
   \<Longrightarrow> i < length es \<and> Key (es ! i) = key"
proof (induction es key low high rule: search_loop.induct)
  case (1 es key low high)
  define mid where "mid = (high + low) div 2"
  from "1.prems"(1) have lh: "low \<le> high"
    by (simp add: search_loop.simps [of es key low high] split: if_splits)
  then have mid: "low \<le> mid" "mid \<le> high" by (auto simp: mid_def)
  consider (gt) "0 < Comparator key (Key (es ! nat mid))"
    | (lt) "\<not> 0 < Comparator key (Key (es ! nat mid))" "Comparator key (Key (es ! nat mid)) < 0"
    | (eq) "\<not> 0 < Comparator key (Key (es ! nat mid))" "\<not> Comparator key (Key (es ! nat mid)) < 0"
    by blast
  then show ?case
  proof cases
    case gt
    then have "search_loop es key (mid + 1) high = (i, True)"
      using "1.prems"(1) lh by (simp add: search_loop.simps [of es key low high] mid_def Let_def)
    then show ?thesis
      using "1.IH"(1) [OF lh mid_def refl gt] "1.prems" mid by simp
  next
    case lt
    then have "search_loop es key low (mid - 1) = (i, True)"
      using "1.prems"(1) lh by (simp add: search_loop.simps [of es key low high] mid_def Let_def)
    then show ?thesis
      using "1.IH"(2) [OF lh mid_def refl lt] "1.prems" mid by simp
  next
    case eq
    have "search_loop es key low high = (nat mid, True)"
      using lh eq by (subst search_loop.simps) (simp add: mid_def Let_def)
    with "1.prems"(1) have "i = nat mid" by simp
    moreover have "Key (es ! nat mid) = key" using eq by simp
    ultimately show ?thesis using mid "1.prems" by auto
  qed
qed

lemma search_loop_le:
  "search_loop es key low high = (i, b) \<Longrightarrow> 0 \<le> low \<Longrightarrow> low \<le> high + 1
   \<Longrightarrow> high < int (length es) \<Longrightarrow> i \<le> length es"
proof (induction es key low high arbitrary: i b rule: search_loop.induct)
  case (1 es key low high)
  show ?case
  proof (cases "low \<le> high")
    case False
    with "1.prems" show ?thesis
      by (auto simp: search_loop.simps [of es key low high])
  next
    case lh: True
    define mid where "mid = (high + low) div 2"
    have mid: "low \<le> mid" "mid \<le> high" using lh by (auto simp: mid_def)
    consider (gt) "0 < Comparator key (Key (es ! nat mid))"
      | (lt) "\<not> 0 < Comparator key (Key (es ! nat mid))" "Comparator key (Key (es ! nat mid)) < 0"
      | (eq) "\<not> 0 < Comparator key (Key (es ! nat mid))" "\<not> Comparator key (Key (es ! nat mid)) < 0"
      by blast
    then show ?thesis
    proof cases
      case gt
      then have "search_loop es key (mid + 1) high = (i, b)"
        using "1.prems"(1) lh by (simp add: search_loop.simps [of es key low high] mid_def Let_def)
      then show ?thesis
        using "1.IH"(1) [OF lh mid_def refl gt] "1.prems" mid by simp
    next
      case lt
      then have "search_loop es key low (mid - 1) = (i, b)"
        using "1.prems"(1) lh by (simp add: search_loop.simps [of es key low high] mid_def Let_def)
      then show ?thesis
        using "1.IH"(2) [OF lh mid_def refl lt] "1.prems" mid by simp
    next
      case eq
      have "search_loop es key low high = (nat mid, True)"
        using lh eq by (subst search_loop.simps) (simp add: mid_def Let_def)
      with "1.prems"(1) have "i = nat mid" by simp
      then show ?thesis using mid "1.prems" by auto
    qed
  qed
qed

lemma search_found:
  "search node key = (i, True) \<Longrightarrow> i < length (Entries node) \<and> Key (Entries node ! i) = key"
  using search_loop_found [of "Entries node" key 0 "int (length (Entries node)) - 1" i]
  by (simp add: search_def)

lemma search_le: "search node key = (i, b) \<Longrightarrow> i \<le> length (Entries node)"
  using search_loop_le [of "Entries node" key 0 "int (length (Entries node)) - 1" i b]
  by (simp add: search_def)

lemma search_sorted:
  assumes "sorted_keys (Entries node)" "search node key = (i, b)"
  shows "(b \<longrightarrow> i < length (Entries node) \<and> Key (Entries node ! i) = key) \<and>
         (\<not> b \<longrightarrow> i \<le> length (Entries node) \<and> (\<forall>j<i. Key (Entries node ! j) < key) \<and>
                 (\<forall>j. i \<le> j \<and> j < length (Entries node) \<longrightarrow> key < Key (Entries node ! j)))"
proof -
  have f1: "\<forall>j. nat (int (length (Entries node)) - 1 + 1) \<le> j \<and> j < length (Entries node)
          \<longrightarrow> key < Key (Entries node ! j)"
    by auto
  have f2: "\<forall>j. j < nat 0 \<longrightarrow> Key (Entries node ! j) < key" by simp
  have f3: "search_loop (Entries node) key 0 (int (length (Entries node)) - 1) = (i, b)"
    using assms(2) by (simp add: search_def)
  have f4: "(0::int) \<le> 0" "(0::int) \<le> int (length (Entries node)) - 1 + 1"
    "int (length (Entries node)) - 1 < int (length (Entries node))" by simp_all
  show ?thesis
    by (rule search_loop_spec [OF assms(1) f4 f2 f1 f3])
qed

text \<open>In a sorted node the result of the search is determined by the position of the key.\<close>

lemma search_eq_notfound:
  assumes "sorted_keys (Entries node)" "j \<le> length (Entries node)"
    and "\<forall>k<j. Key (Entries node ! k) < key"
    and "\<forall>k. j \<le> k \<and> k < length (Entries node) \<longrightarrow> key < Key (Entries node ! k)"
  shows "search node key = (j, False)"
proof -
  obtain i b where s: "search node key = (i, b)" by (cases "search node key")
  note sp = search_sorted [OF assms(1) s]
  have nb: "\<not> b"
  proof
    assume b
    with sp have i: "i < length (Entries node)" "Key (Entries node ! i) = key" by auto
    show False
    proof (cases "i < j")
      case True
      with assms(3) have "Key (Entries node ! i) < key" by blast
      with i show False by simp
    next
      case False
      with assms(4) i(1) have "key < Key (Entries node ! i)" by auto
      with i show False by simp
    qed
  qed
  have "i = j"
  proof (rule ccontr)
    assume "i \<noteq> j"
    then consider "i < j" | "j < i" by linarith
    then show False
    proof cases
      case 1
      with sp nb assms(2) have "key < Key (Entries node ! i)" by auto
      moreover from 1 assms(3) have "Key (Entries node ! i) < key" by auto
      ultimately show False by simp
    next
      case 2
      with sp nb have "Key (Entries node ! j) < key" by auto
      moreover from 2 sp nb assms(4) have "key < Key (Entries node ! j)" by auto
      ultimately show False by simp
    qed
  qed
  with nb s show ?thesis by simp
qed

lemma search_eq_found:
  assumes "sorted_keys (Entries node)" "j < length (Entries node)" "Key (Entries node ! j) = key"
  shows "search node key = (j, True)"
proof -
  obtain i b where s: "search node key = (i, b)" by (cases "search node key")
  note sp = search_sorted [OF assms(1) s]
  have b: b
  proof (rule ccontr)
    assume "\<not> b"
    with sp have *: "\<forall>k<i. Key (Entries node ! k) < key"
      "\<forall>k. i \<le> k \<and> k < length (Entries node) \<longrightarrow> key < Key (Entries node ! k)" by auto
    show False
    proof (cases "j < i")
      case True
      with *(1) have "Key (Entries node ! j) < key" by blast
      with assms(3) show False by simp
    next
      case False
      with *(2) assms(2) have "key < Key (Entries node ! j)" by auto
      with assms(3) show False by simp
    qed
  qed
  with sp have i: "i < length (Entries node)" "Key (Entries node ! i) = key" by auto
  have "i = j"
  proof (rule ccontr)
    assume "i \<noteq> j"
    then consider "i < j" | "j < i" by linarith
    then show False
      using sorted_keys_nth [OF assms(1), of i j] sorted_keys_nth [OF assms(1), of j i]
        i assms(2,3) by cases auto
  qed
  with b s show ?thesis by simp
qed

section \<open>Paths\<close>

lemma get_node_append:
  "get_node n (p @ q) = (case get_node n p of None \<Rightarrow> None | Some x \<Rightarrow> get_node x q)"
  by (induction p arbitrary: n) auto

lemma get_node_snoc:
  "get_node n (p @ [i]) =
     (case get_node n p of
        None \<Rightarrow> None
      | Some P \<Rightarrow> if i < length (Children P) then Some (Children P ! i) else None)"
  by (simp add: get_node_append split: option.splits)

lemma get_node_butlast:
  "get_node n p = Some x \<Longrightarrow> p \<noteq> [] \<Longrightarrow>
     \<exists>P. get_node n (butlast p) = Some P \<and> last p < length (Children P)
         \<and> Children P ! last p = x"
proof -
  assume a: "get_node n p = Some x" "p \<noteq> []"
  then have "p = butlast p @ [last p]" by simp
  with a(1) have "get_node n (butlast p @ [last p]) = Some x" by simp
  then show ?thesis
    by (auto simp: get_node_snoc split: option.splits if_splits)
qed

lemma put_node_append:
  "get_node n p = Some P \<Longrightarrow> put_node n (p @ q) x = put_node n p (put_node P q x)"
  by (induction p arbitrary: n) (auto split: if_splits)

lemma put_node_snoc:
  "get_node n p = Some P \<Longrightarrow>
     put_node n (p @ [i]) x = put_node n p (Node (Entries P) ((Children P)[i := x]))"
  by (simp add: put_node_append)

lemma get_put_node:
  "get_node n p = Some y \<Longrightarrow> get_node (put_node n p x) p = Some x"
  by (induction p arbitrary: n) (auto split: if_splits)

lemma get_put_node_append:
  "get_node n p = Some y \<Longrightarrow> get_node (put_node n p x) (p @ q) = get_node x q"
  by (simp add: get_node_append get_put_node)

lemma put_put_node: "put_node (put_node n p x) p y = put_node n p y"
proof (induction p arbitrary: n)
  case Nil
  show ?case by simp
next
  case (Cons i p)
  show ?case
  proof (cases "i < length (Children n)")
    case True
    then show ?thesis by (simp add: Cons.IH)
  next
    case False
    then show ?thesis by (simp add: list_update_beyond not_less)
  qed
qed

lemma put_put_node_prefix:
  "get_node n p = Some P \<Longrightarrow> put_node (put_node n (p @ q) x) p y = put_node n p y"
  by (simp add: put_node_append put_put_node)

lemma put_get_node_id: "get_node n p = Some x \<Longrightarrow> put_node n p x = n"
  by (induction p arbitrary: n) (auto split: if_splits)

section \<open>In-order sequence\<close>

lemma interleave_append:
  "length cs1 = length es1 \<Longrightarrow>
     interleave (cs1 @ cs2) (es1 @ es2) = interleave cs1 es1 @ interleave cs2 es2"
  by (induction cs1 es1 rule: list_induct2) auto

lemma interleave_Nil2: "interleave cs [] = (case cs of [] \<Rightarrow> [] | c # _ \<Rightarrow> c)"
  by (cases cs) auto

lemma inorder_Node: "inorder n = interleave (map inorder (Children n)) (Entries n)"
  by (cases n) simp

lemma inorder_leaf: "Children n = [] \<Longrightarrow> inorder n = Entries n"
  by (simp add: inorder_Node)

text \<open>
  The in-order sequence of a node around its child \<open>i\<close>: the children and entries
  before it, the child, and the entries and children after it.
\<close>

definition inorder_before :: "('k, 'v) Node \<Rightarrow> nat \<Rightarrow> ('k, 'v) Entry list" where
  "inorder_before n i = interleave (map inorder (take i (Children n))) (take i (Entries n))"

definition inorder_after :: "('k, 'v) Node \<Rightarrow> nat \<Rightarrow> ('k, 'v) Entry list" where
  "inorder_after n i =
     (if i < length (Entries n)
      then Entries n ! i #
           interleave (map inorder (drop (Suc i) (Children n))) (drop (Suc i) (Entries n))
      else [])"

lemma interleave_split:
  assumes "length cs = length es + 1" "i \<le> length es"
  shows "interleave cs es =
           interleave (take i cs) (take i es) @ cs ! i @
           (if i < length es then es ! i # interleave (drop (Suc i) cs) (drop (Suc i) es) else [])"
proof -
  have cs: "cs = take i cs @ cs ! i # drop (Suc i) cs"
    using assms by (simp add: id_take_nth_drop)
  have len: "length (take i cs) = length (take i es)" using assms by simp
  have "interleave cs es = interleave (take i cs @ cs ! i # drop (Suc i) cs) (take i es @ drop i es)"
    using cs by simp
  also have "\<dots> = interleave (take i cs) (take i es) @ interleave (cs ! i # drop (Suc i) cs) (drop i es)"
    by (rule interleave_append [OF len])
  also have "interleave (cs ! i # drop (Suc i) cs) (drop i es) =
      cs ! i @ (if i < length es then es ! i # interleave (drop (Suc i) cs) (drop (Suc i) es) else [])"
  proof (cases "i < length es")
    case True
    then have "drop i es = es ! i # drop (Suc i) es" by (simp add: Cons_nth_drop_Suc)
    with True show ?thesis by simp
  next
    case False
    with assms have "drop i es = []" by simp
    with False show ?thesis by simp
  qed
  finally show ?thesis .
qed

lemma inorder_split:
  assumes "length (Children n) = length (Entries n) + 1" "i \<le> length (Entries n)"
  shows "inorder n = inorder_before n i @ inorder (Children n ! i) @ inorder_after n i"
  using interleave_split [of "map inorder (Children n)" "Entries n" i] assms
  by (simp add: inorder_Node [of n] inorder_before_def inorder_after_def take_map drop_map)

lemma inorder_before_upd [simp]:
  "inorder_before (Node es (cs[i := c])) i = inorder_before (Node es cs) i"
  by (simp add: inorder_before_def)

lemma inorder_after_upd [simp]:
  "inorder_after (Node es (cs[i := c])) i = inorder_after (Node es cs) i"
  by (simp add: inorder_after_def)

lemma set_interleave_entries: "set es \<subseteq> set (interleave cs es)"
  by (induction cs es rule: interleave.induct) auto

lemma set_Entries_inorder: "set (Entries n) \<subseteq> set (inorder n)"
  by (simp add: inorder_Node [of n] set_interleave_entries)

lemma set_inorder_child:
  assumes "length (Children n) = length (Entries n) + 1" "i < length (Children n)"
  shows "set (inorder (Children n ! i)) \<subseteq> set (inorder n)"
proof -
  from assms have "i \<le> length (Entries n)" by simp
  from inorder_split [OF assms(1) this] show ?thesis by auto
qed


section \<open>Structural invariants\<close>

text \<open>
  \<open>full_ok m h n\<close>: \<open>n\<close> is a subtree of height \<open>h\<close> all of whose leaves are at
  depth \<open>h\<close>, and every node of it, \<open>n\<close> included, holds between \<open>minEntries\<close> and
  \<open>maxEntries\<close> entries and, when it is not a leaf, one child more than entries.
  \<open>sub_ok\<close> leaves the number of entries of \<open>n\<close> itself open, and \<open>root_ok\<close> asks
  the root for at least one entry.
\<close>

primrec full_ok :: "nat \<Rightarrow> nat \<Rightarrow> ('k, 'v) Node \<Rightarrow> bool" where
  "full_ok m 0 n = False"
| "full_ok m (Suc h) n =
     (minEntries m \<le> length (Entries n) \<and> length (Entries n) \<le> maxEntries m \<and>
      (if h = 0 then Children n = []
       else length (Children n) = length (Entries n) + 1 \<and>
            (\<forall>c \<in> set (Children n). full_ok m h c)))"

definition sub_ok :: "nat \<Rightarrow> nat \<Rightarrow> ('k, 'v) Node \<Rightarrow> bool" where
  "sub_ok m h n =
     (case h of
        0 \<Rightarrow> False
      | Suc h' \<Rightarrow>
          (if h' = 0 then Children n = []
           else length (Children n) = length (Entries n) + 1 \<and>
                (\<forall>c \<in> set (Children n). full_ok m h' c)))"

definition root_ok :: "nat \<Rightarrow> nat \<Rightarrow> ('k, 'v) Node \<Rightarrow> bool" where
  "root_ok m h n =
     (sub_ok m h n \<and> 1 \<le> length (Entries n) \<and> length (Entries n) \<le> maxEntries m)"

lemma full_ok_iff:
  "full_ok m h n \<longleftrightarrow>
     sub_ok m h n \<and> minEntries m \<le> length (Entries n) \<and> length (Entries n) \<le> maxEntries m"
  by (cases h) (auto simp: sub_ok_def)

lemma full_ok_sub_ok: "full_ok m h n \<Longrightarrow> sub_ok m h n"
  by (simp add: full_ok_iff)

lemma sub_ok_pos: "sub_ok m h n \<Longrightarrow> 0 < h"
  by (cases h) (auto simp: sub_ok_def)

lemma sub_ok_leaf: "sub_ok m h n \<Longrightarrow> (Children n = []) = (h = 1)"
  by (cases h) (auto simp: sub_ok_def split: if_splits)

lemma sub_ok_shape:
  "sub_ok m h n \<Longrightarrow> Children n = [] \<or> length (Children n) = length (Entries n) + 1"
  by (cases h) (auto simp: sub_ok_def split: if_splits)

lemma sub_ok_internal:
  "sub_ok m h n \<Longrightarrow> Children n \<noteq> [] \<Longrightarrow>
     1 < h \<and> length (Children n) = length (Entries n) + 1 \<and>
     (\<forall>c \<in> set (Children n). full_ok m (h - 1) c)"
  by (cases h) (auto simp: sub_ok_def split: if_splits)

lemma sub_ok_child:
  "sub_ok m h n \<Longrightarrow> i < length (Children n) \<Longrightarrow> full_ok m (h - 1) (Children n ! i)"
  using sub_ok_internal [of m h n] by (cases "Children n = []") auto

lemma sub_ok_leafI: "Children n = [] \<Longrightarrow> sub_ok m 1 n"
  by (simp add: sub_ok_def)

lemma sub_ok_internalI:
  "1 < h \<Longrightarrow> length (Children n) = length (Entries n) + 1 \<Longrightarrow>
     (\<forall>c \<in> set (Children n). full_ok m (h - 1) c) \<Longrightarrow> sub_ok m h n"
  by (cases h) (auto simp: sub_ok_def)

lemma sub_ok_height: "sub_ok m h n \<Longrightarrow> height_loop n = h"
proof (induction h arbitrary: n)
  case 0
  then show ?case by (simp add: sub_ok_def)
next
  case (Suc h)
  show ?case
  proof (cases "Children n = []")
    case True
    with Suc.prems sub_ok_leaf [of m "Suc h" n] show ?thesis
      by (simp add: height_loop.simps [of n])
  next
    case False
    from sub_ok_internal [OF Suc.prems False]
    have len: "length (Children n) = length (Entries n) + 1"
      and ch: "full_ok m h (Children n ! 0)" by auto
    from Suc.IH [OF full_ok_sub_ok [OF ch]] False show ?thesis
      by (simp add: height_loop.simps [of n])
  qed
qed

lemma get_node_sub_ok:
  "sub_ok m h n \<Longrightarrow> get_node n p = Some x \<Longrightarrow>
     length p < h \<and> sub_ok m (h - length p) x \<and>
     (p \<noteq> [] \<longrightarrow> full_ok m (h - length p) x)"
proof (induction p arbitrary: n h)
  case Nil
  then show ?case by (simp add: sub_ok_pos)
next
  case (Cons i p)
  from Cons.prems(2) have i: "i < length (Children n)" "get_node (Children n ! i) p = Some x"
    by (auto split: if_splits)
  from i(1) have ne: "Children n \<noteq> []" by auto
  from sub_ok_internal [OF Cons.prems(1) ne] i(1)
  have h: "1 < h" and c: "full_ok m (h - 1) (Children n ! i)" by auto
  from Cons.IH [OF full_ok_sub_ok [OF c] i(2)]
  have *: "length p < h - 1" "sub_ok m (h - 1 - length p) x"
    "p \<noteq> [] \<longrightarrow> full_ok m (h - 1 - length p) x" by auto
  show ?case
  proof (cases "p = []")
    case True
    with i(2) c h full_ok_sub_ok [OF c] show ?thesis by simp
  next
    case False
    with * h show ?thesis by simp
  qed
qed

lemma Entries_put_node: "p \<noteq> [] \<Longrightarrow> Entries (put_node n p x) = Entries n"
  by (cases p) auto

lemma length_Children_put_node:
  "p \<noteq> [] \<Longrightarrow> length (Children (put_node n p x)) = length (Children n)"
  by (cases p) auto

lemma put_node_full_ok:
  "full_ok m h n \<Longrightarrow> get_node n p = Some x \<Longrightarrow> full_ok m (h - length p) x'
     \<Longrightarrow> full_ok m h (put_node n p x')"
proof (induction p arbitrary: n h)
  case Nil
  then show ?case by simp
next
  case (Cons i p)
  from Cons.prems(2) have i: "i < length (Children n)" "get_node (Children n ! i) p = Some x"
    by (auto split: if_splits)
  from i(1) have ne: "Children n \<noteq> []" by auto
  from sub_ok_internal [OF full_ok_sub_ok [OF Cons.prems(1)] ne]
  have h: "1 < h" and len: "length (Children n) = length (Entries n) + 1"
    and all: "\<forall>c \<in> set (Children n). full_ok m (h - 1) c" by auto
  from all i(1) have c: "full_ok m (h - 1) (Children n ! i)" by simp
  have "full_ok m (h - 1) (put_node (Children n ! i) p x')"
    using Cons.IH [OF c i(2)] Cons.prems(3) by simp
  with all have all': "\<forall>c \<in> set ((Children n)[i := put_node (Children n ! i) p x']). full_ok m (h - 1) c"
    by (metis insertE set_update_subset_insert subsetD)
  have "sub_ok m h (put_node n (i # p) x')"
    by (rule sub_ok_internalI [OF h]) (use len all' in simp_all)
  with Cons.prems(1) show ?case by (simp add: full_ok_iff)
qed

lemma put_node_sub_ok:
  assumes "sub_ok m h n" "get_node n p = Some x" "p \<noteq> []" "full_ok m (h - length p) x'"
  shows "sub_ok m h (put_node n p x')"
proof -
  from assms(3) obtain i q where p: "p = i # q" by (cases p) auto
  with assms(2) have i: "i < length (Children n)" "get_node (Children n ! i) q = Some x"
    by (auto split: if_splits)
  from i(1) have ne: "Children n \<noteq> []" by auto
  from sub_ok_internal [OF assms(1) ne]
  have h: "1 < h" and len: "length (Children n) = length (Entries n) + 1"
    and all: "\<forall>c \<in> set (Children n). full_ok m (h - 1) c" by auto
  from all i(1) have c: "full_ok m (h - 1) (Children n ! i)" by simp
  have "full_ok m (h - 1) (put_node (Children n ! i) q x')"
    using put_node_full_ok [OF c i(2)] assms(4) p by simp
  with all have all': "\<forall>c \<in> set ((Children n)[i := put_node (Children n ! i) q x']). full_ok m (h - 1) c"
    by (metis insertE set_update_subset_insert subsetD)
  show ?thesis
    unfolding p by (rule sub_ok_internalI [OF h]) (use len all' in simp_all)
qed

lemma put_node_root_ok:
  assumes "root_ok m h n" "get_node n p = Some x" "p \<noteq> []" "full_ok m (h - length p) x'"
  shows "root_ok m h (put_node n p x')"
  using assms put_node_sub_ok [of m h n p x x']
  by (simp add: root_ok_def Entries_put_node)

section \<open>The in-order sequence around a path\<close>

lemma inorder_put_node_ctx:
  "sub_ok m h n \<Longrightarrow> get_node n p = Some x \<Longrightarrow>
     \<exists>pre post. \<forall>x'. inorder (put_node n p x') = pre @ inorder x' @ post"
proof (induction p arbitrary: n h)
  case Nil
  have "\<forall>x'. inorder (put_node n [] x') = [] @ inorder x' @ []" by simp
  then show ?case by blast
next
  case (Cons i p)
  from Cons.prems(2) have i: "i < length (Children n)" "get_node (Children n ! i) p = Some x"
    by (auto split: if_splits)
  from i(1) have ne: "Children n \<noteq> []" by auto
  from sub_ok_internal [OF Cons.prems(1) ne] i(1)
  have len: "length (Children n) = length (Entries n) + 1"
    and c: "full_ok m (h - 1) (Children n ! i)" by auto
  from Cons.IH [OF full_ok_sub_ok [OF c] i(2)] obtain pre post where
    ih: "\<forall>x'. inorder (put_node (Children n ! i) p x') = pre @ inorder x' @ post" by blast
  have "inorder (put_node n (i # p) x') =
        (inorder_before n i @ pre) @ inorder x' @ (post @ inorder_after n i)" for x'
  proof -
    let ?n' = "Node (Entries n) ((Children n)[i := put_node (Children n ! i) p x'])"
    have "inorder ?n' = inorder_before ?n' i @ inorder (Children ?n' ! i) @ inorder_after ?n' i"
      by (rule inorder_split) (use len i(1) in simp_all)
    moreover have "inorder_before ?n' i = inorder_before n i"
      by (simp add: inorder_before_def)
    moreover have "inorder_after ?n' i = inorder_after n i"
      by (simp add: inorder_after_def)
    ultimately show ?thesis using ih i(1) by simp
  qed
  then show ?case by blast
qed

lemma inorder_put_node_same:
  assumes "sub_ok m h n" "get_node n p = Some x" "inorder x' = inorder x"
  shows "inorder (put_node n p x') = inorder n"
proof -
  from inorder_put_node_ctx [OF assms(1,2)] obtain pre post where
    c: "\<forall>x'. inorder (put_node n p x') = pre @ inorder x' @ post" by blast
  then have "inorder (put_node n p x') = inorder (put_node n p x)"
    using assms(3) by simp
  then show ?thesis by (simp add: put_get_node_id [OF assms(2)])
qed

lemma sorted_keys_append:
  "sorted_keys (xs @ ys) \<longleftrightarrow>
     sorted_keys xs \<and> sorted_keys ys \<and> (\<forall>x \<in> set xs. \<forall>y \<in> set ys. Key x < Key y)"
  by (auto simp: sorted_keys_def sorted_wrt_append)

lemma sorted_keys_Cons:
  "sorted_keys (x # ys) \<longleftrightarrow> sorted_keys ys \<and> (\<forall>y \<in> set ys. Key x < Key y)"
  by (auto simp: sorted_keys_def)

lemma sorted_keys_Nil [simp]: "sorted_keys []"
  by (simp add: sorted_keys_def)

lemma sorted_keys_get_node:
  assumes "sub_ok m h n" "get_node n p = Some x" "sorted_keys (inorder n)"
  shows "sorted_keys (inorder x)"
proof -
  from inorder_put_node_ctx [OF assms(1,2)] obtain pre post where
    "\<forall>x'. inorder (put_node n p x') = pre @ inorder x' @ post" by blast
  then have "inorder (put_node n p x) = pre @ inorder x @ post" by blast
  with assms(3) show ?thesis
    by (simp add: put_get_node_id [OF assms(2)] sorted_keys_append)
qed

section \<open>Splitting a node\<close>

lemma size_params:
  assumes "3 \<le> m"
  shows "middle m < m" "minEntries m \<le> middle m" "middle m \<le> maxEntries m"
    "minEntries m \<le> m - middle m - 1" "m - middle m - 1 \<le> maxEntries m"
    "maxEntries m + 1 = m" "1 \<le> minEntries m" "2 \<le> maxEntries m"
    "minEntries m < maxEntries m"
  using assms
  by (auto simp: middle_def minEntries_def maxEntries_def minChildren_def maxChildren_def)

lemma sub_ok_Suc0 [simp]: "sub_ok m (Suc 0) n = (Children n = [])"
  by (simp add: sub_ok_def)

lemma sorted_keys_interleave_entries:
  "sorted_keys (interleave cs es) \<Longrightarrow> sorted_keys es"
proof (induction cs es rule: interleave.induct)
  case (1 es)
  then show ?case by simp
next
  case (2 c cs)
  then show ?case by simp
next
  case (3 c cs e es)
  from "3.prems" have "sorted_keys (e # interleave cs es)"
    by (simp add: sorted_keys_append)
  then have s: "sorted_keys (interleave cs es)" "\<forall>y \<in> set (interleave cs es). Key e < Key y"
    by (simp_all add: sorted_keys_Cons)
  from "3.IH" [OF s(1)] s(2) set_interleave_entries [of es cs]
  show ?case by (auto simp: sorted_keys_Cons)
qed

lemma sorted_keys_Entries: "sorted_keys (inorder n) \<Longrightarrow> sorted_keys (Entries n)"
  by (simp add: inorder_Node [of n] sorted_keys_interleave_entries)

lemma Entries_in_inorder_before:
  "k < i \<Longrightarrow> k < length (Entries n) \<Longrightarrow> Entries n ! k \<in> set (inorder_before n i)"
proof -
  assume a: "k < i" "k < length (Entries n)"
  then have "Entries n ! k \<in> set (take i (Entries n))"
    by (metis in_set_conv_nth length_take min_less_iff_conj nth_take)
  then show ?thesis
    using set_interleave_entries [of "take i (Entries n)" "map inorder (take i (Children n))"]
    by (auto simp: inorder_before_def)
qed

lemma Entries_in_inorder_after:
  assumes "i \<le> k" "k < length (Entries n)"
  shows "Entries n ! k \<in> set (inorder_after n i)"
proof (cases "k = i")
  case True
  with assms show ?thesis by (simp add: inorder_after_def)
next
  case False
  with assms have "Suc i \<le> k" by simp
  then have "Entries n ! k = drop (Suc i) (Entries n) ! (k - Suc i)"
    using assms by simp
  moreover have "k - Suc i < length (drop (Suc i) (Entries n))"
    using assms \<open>Suc i \<le> k\<close> by simp
  ultimately have "Entries n ! k \<in> set (drop (Suc i) (Entries n))"
    by (metis nth_mem)
  then show ?thesis
    using set_interleave_entries [of "drop (Suc i) (Entries n)"
        "map inorder (drop (Suc i) (Children n))"] assms
    by (auto simp: inorder_after_def)
qed

text \<open>
  The keys of child \<open>j\<close> of a sorted node lie between the entries \<open>j - 1\<close> and \<open>j\<close>, so
  the search for one of them in the node ends at index \<open>j\<close>.
\<close>

lemma child_key_position:
  assumes "length (Children n) = length (Entries n) + 1" "j < length (Children n)"
    and "sorted_keys (inorder n)" "x \<in> set (inorder (Children n ! j))"
  shows "(\<forall>k<j. Key (Entries n ! k) < Key x) \<and>
         (\<forall>k. j \<le> k \<and> k < length (Entries n) \<longrightarrow> Key x < Key (Entries n ! k))"
proof -
  from assms(1,2) have j: "j \<le> length (Entries n)" by simp
  from assms(3) inorder_split [OF assms(1) j]
  have s: "sorted_keys (inorder_before n j @ inorder (Children n ! j) @ inorder_after n j)"
    by simp
  have "Key (Entries n ! k) < Key x" if "k < j" for k
  proof -
    from that j have "Entries n ! k \<in> set (inorder_before n j)"
      by (intro Entries_in_inorder_before) simp_all
    with s assms(4) show ?thesis by (auto simp: sorted_keys_append)
  qed
  moreover have "Key x < Key (Entries n ! k)" if "j \<le> k" "k < length (Entries n)" for k
  proof -
    from that have "Entries n ! k \<in> set (inorder_after n j)"
      by (rule Entries_in_inorder_after)
    with s assms(4) show ?thesis by (auto simp: sorted_keys_append)
  qed
  ultimately show ?thesis by blast
qed

lemma search_child_key:
  assumes "length (Children n) = length (Entries n) + 1" "j < length (Children n)"
    and "sorted_keys (inorder n)" "x \<in> set (inorder (Children n ! j))"
  shows "search n (Key x) = (j, False)"
proof -
  from assms(1,2) have j: "j \<le> length (Entries n)" by simp
  from child_key_position [OF assms] show ?thesis
    by (intro search_eq_notfound sorted_keys_Entries assms(3) j) simp_all
qed

text \<open>The two halves of an overfull node.\<close>

lemma split_halves:
  assumes "3 \<le> m" "sub_ok m h node" "length (Entries node) = m"
  defines "mid \<equiv> middle m"
  defines "left \<equiv> Node (take mid (Entries node))
                     (if isLeaf node then [] else take (mid + 1) (Children node))"
  defines "right \<equiv> Node (drop (mid + 1) (Entries node))
                     (if isLeaf node then [] else drop (mid + 1) (Children node))"
  shows "full_ok m h left" "full_ok m h right"
    "inorder node = inorder left @ Entries node ! mid # inorder right"
    "mid + 1 \<le> length (Entries node)" "isLeaf node \<or> mid + 1 \<le> length (Children node)"
proof -
  note sp = size_params [OF assms(1)]
  have midm: "mid < m" using sp by (simp add: mid_def)
  show m1: "mid + 1 \<le> length (Entries node)" using midm assms(3) by simp
  show "isLeaf node \<or> mid + 1 \<le> length (Children node)"
    using sub_ok_shape [OF assms(2)] m1 by (auto simp: isLeaf_def)
  show "full_ok m h left"
  proof (cases "Children node = []")
    case True
    with assms(2) sub_ok_leaf [of m h node] have "h = 1" by simp
    with True sp midm assms(3) show ?thesis
      by (simp add: full_ok_iff left_def isLeaf_def sub_ok_leafI mid_def)
  next
    case False
    from sub_ok_internal [OF assms(2) False]
    have h: "1 < h" and len: "length (Children node) = length (Entries node) + 1"
      and all: "\<forall>c \<in> set (Children node). full_ok m (h - 1) c" by auto
    have "sub_ok m h left"
    proof (rule sub_ok_internalI [OF h])
      show "length (Children left) = length (Entries left) + 1"
        using False len midm assms(3) by (simp add: left_def isLeaf_def)
      show "\<forall>c \<in> set (Children left). full_ok m (h - 1) c"
        using False all by (auto simp: left_def isLeaf_def dest: in_set_takeD)
    qed
    with sp midm assms(3) show ?thesis
      by (simp add: full_ok_iff left_def mid_def)
  qed
  show "full_ok m h right"
  proof (cases "Children node = []")
    case True
    with assms(2) sub_ok_leaf [of m h node] have "h = 1" by simp
    with True sp midm assms(3) show ?thesis
      by (simp add: full_ok_iff right_def isLeaf_def sub_ok_leafI mid_def)
  next
    case False
    from sub_ok_internal [OF assms(2) False]
    have h: "1 < h" and len: "length (Children node) = length (Entries node) + 1"
      and all: "\<forall>c \<in> set (Children node). full_ok m (h - 1) c" by auto
    have "sub_ok m h right"
    proof (rule sub_ok_internalI [OF h])
      show "length (Children right) = length (Entries right) + 1"
        using False len midm assms(3) by (simp add: right_def isLeaf_def)
      show "\<forall>c \<in> set (Children right). full_ok m (h - 1) c"
        using False all by (auto simp: right_def isLeaf_def dest: in_set_dropD)
    qed
    with sp midm assms(3) show ?thesis
      by (simp add: full_ok_iff right_def mid_def)
  qed
  show "inorder node = inorder left @ Entries node ! mid # inorder right"
  proof (cases "Children node = []")
    case True
    then have "inorder node = Entries node" by (simp add: inorder_leaf)
    moreover have "inorder left = take mid (Entries node)"
      "inorder right = drop (mid + 1) (Entries node)"
      using True by (simp_all add: left_def right_def isLeaf_def)
    ultimately show ?thesis
      using m1 by (simp add: id_take_nth_drop [symmetric])
  next
    case False
    from sub_ok_internal [OF assms(2) False]
    have len: "length (Children node) = length (Entries node) + 1" by auto
    have midle: "mid \<le> length (Entries node)" "mid < length (Entries node)" using m1 by simp_all
    have l: "inorder left = inorder_before node mid @ inorder (Children node ! mid)"
    proof -
      have t: "take (Suc mid) (Children node) = take mid (Children node) @ [Children node ! mid]"
        using len midle by (simp add: take_Suc_conv_app_nth)
      have "inorder left =
          interleave (map inorder (take mid (Children node)) @ [inorder (Children node ! mid)])
            (take mid (Entries node) @ [])"
        using False by (simp add: left_def isLeaf_def t)
      also have "\<dots> = interleave (map inorder (take mid (Children node))) (take mid (Entries node))
            @ interleave [inorder (Children node ! mid)] []"
        by (rule interleave_append) (use len midle in simp)
      finally show ?thesis by (simp add: inorder_before_def)
    qed
    have r: "Entries node ! mid # inorder right = inorder_after node mid"
      using False midle by (simp add: right_def isLeaf_def inorder_after_def)
    from inorder_split [OF len midle(1)] l r show ?thesis by simp
  qed
qed


lemma splitRoot_correct:
  assumes "3 \<le> m" "sub_ok m h root" "length (Entries root) = m"
  shows "\<exists>root'. splitRoot m root = Inr root' \<and> root_ok m (h + 1) root' \<and>
           inorder root' = inorder root"
proof -
  let ?mid = "middle m"
  let ?left = "Node (take ?mid (Entries root))
                 (if isLeaf root then [] else take (?mid + 1) (Children root))"
  let ?right = "Node (drop (?mid + 1) (Entries root))
                 (if isLeaf root then [] else drop (?mid + 1) (Children root))"
  let ?root' = "Node [Entries root ! ?mid] [?left, ?right]"
  note sh = split_halves [OF assms]
  note sp = size_params [OF assms(1)]
  have eq: "splitRoot m root = Inr ?root'"
    using sh(4,5) by (auto simp: splitRoot_def Let_def)
  have "sub_ok m (h + 1) ?root'"
    by (rule sub_ok_internalI) (use sh(1,2) sub_ok_pos [OF assms(2)] in auto)
  then have "root_ok m (h + 1) ?root'"
    using sp by (simp add: root_ok_def)
  moreover have "inorder ?root' = inorder root"
    using sh(3) by simp
  ultimately show ?thesis using eq by blast
qed

text \<open>The parent takes up the middle entry and the two halves of its child \<open>j\<close>.\<close>

lemma absorb_split:
  assumes "sub_ok m hP P" "j < length (Children P)"
    and "full_ok m (hP - 1) left" "full_ok m (hP - 1) right"
    and "inorder node1 = inorder left @ e # inorder right"
  defines "P' \<equiv> Node (insert_at j e (Entries P))
                   (insert_at (j + 1) right ((Children P)[j := left]))"
  shows "sub_ok m hP P'" "length (Entries P') = length (Entries P) + 1"
    "inorder P' = inorder (Node (Entries P) ((Children P)[j := node1]))"
proof -
  from assms(2) have ne: "Children P \<noteq> []" by auto
  from sub_ok_internal [OF assms(1) ne]
  have h: "1 < hP" and len: "length (Children P) = length (Entries P) + 1"
    and all: "\<forall>c \<in> set (Children P). full_ok m (hP - 1) c" by auto
  from len assms(2) have j: "j \<le> length (Entries P)" by simp
  show le: "length (Entries P') = length (Entries P) + 1"
    using j by (simp add: P'_def insert_at_def)
  have cs': "Children P' = take j (Children P) @ left # right # drop (Suc j) (Children P)"
    using assms(2) by (simp add: P'_def insert_at_def take_Suc_conv_app_nth)
  show "sub_ok m hP P'"
  proof (rule sub_ok_internalI [OF h])
    show "length (Children P') = length (Entries P') + 1"
      using le len assms(2) by (simp add: cs')
    show "\<forall>c \<in> set (Children P'). full_ok m (hP - 1) c"
      using all assms(3,4) by (auto simp: cs' dest: in_set_takeD in_set_dropD)
  qed
  let ?P1 = "Node (Entries P) ((Children P)[j := node1])"
  have "inorder ?P1 = inorder_before ?P1 j @ inorder (Children ?P1 ! j) @ inorder_after ?P1 j"
    by (rule inorder_split) (use len j in simp_all)
  then have rhs: "inorder ?P1 = inorder_before P j @ inorder node1 @ inorder_after P j"
    using assms(2) by (simp add: inorder_before_def inorder_after_def)
  have es': "Entries P' = take j (Entries P) @ e # drop j (Entries P)"
    by (simp add: P'_def insert_at_def)
  have "inorder P' =
      interleave (map inorder (take j (Children P)) @
                  inorder left # inorder right # map inorder (drop (Suc j) (Children P)))
        (take j (Entries P) @ e # drop j (Entries P))"
    by (simp add: inorder_Node [of P'] cs' es')
  also have "\<dots> = interleave (map inorder (take j (Children P))) (take j (Entries P)) @
      interleave (inorder left # inorder right # map inorder (drop (Suc j) (Children P)))
        (e # drop j (Entries P))"
    by (rule interleave_append) (use len j assms(2) in simp)
  also have "interleave (inorder left # inorder right # map inorder (drop (Suc j) (Children P)))
        (e # drop j (Entries P)) = inorder left @ e # inorder right @ inorder_after P j"
  proof (cases "j < length (Entries P)")
    case True
    then have "drop j (Entries P) = Entries P ! j # drop (Suc j) (Entries P)"
      by (simp add: Cons_nth_drop_Suc)
    with True show ?thesis by (simp add: inorder_after_def)
  next
    case False
    with j have "drop j (Entries P) = []" by simp
    with False show ?thesis by (simp add: inorder_after_def)
  qed
  finally show "inorder P' = inorder ?P1"
    using rhs assms(5) by (simp add: inorder_before_def)
qed


text \<open>
  \<open>split\<close> restores the invariant: the tree is in order everywhere except that the node
  at \<open>p\<close>, here \<open>node1\<close> put in the place of a node of a tree \<open>root0\<close> that is in order,
  may hold one entry too many.
\<close>

lemma split_correct:
  assumes m3: "3 \<le> m"
  shows "root_ok m h root0 \<Longrightarrow> get_node root0 p = Some node0
    \<Longrightarrow> sub_ok m (h - length p) node1
    \<Longrightarrow> length (Entries node1) \<le> maxEntries m + 1
    \<Longrightarrow> (if p = [] then 1 else minEntries m) \<le> length (Entries node1)
    \<Longrightarrow> sorted_keys (inorder (put_node root0 p node1))
    \<Longrightarrow> \<exists>root' h'. split m (put_node root0 p node1) p = Inr root' \<and> root_ok m h' root' \<and>
          (h' = h \<or> (h' = h + 1 \<and> length (Entries root') = 1)) \<and>
          inorder root' = inorder (put_node root0 p node1)"
proof (induction p arbitrary: node0 node1 rule: rev_induct)
  case Nil
  note sp = size_params [OF m3]
  show ?case
  proof (cases "shouldSplit m node1")
    case False
    then have "split m (put_node root0 [] node1) [] = Inr node1"
      by (simp add: split.simps [of m node1 "[]"])
    moreover have "root_ok m h node1"
      using Nil.prems False by (simp add: root_ok_def shouldSplit_def)
    ultimately show ?thesis by auto
  next
    case True
    with Nil.prems sp have len: "length (Entries node1) = m"
      by (simp add: shouldSplit_def)
    from Nil.prems have so: "sub_ok m h node1" by simp
    from splitRoot_correct [OF m3 so len] obtain root' where
      r: "splitRoot m node1 = Inr root'" "root_ok m (h + 1) root'" "inorder root' = inorder node1"
      by blast
    have one: "length (Entries root') = 1"
      using r(1) by (auto simp: splitRoot_def Let_def split: if_splits)
    have "split m (put_node root0 [] node1) [] = Inr root'"
      using True r(1) by (simp add: split.simps [of m node1 "[]"])
    with r one show ?thesis by auto
  qed
next
  case (snoc j q)
  note sp = size_params [OF m3]
  let ?p = "q @ [j]"
  let ?root1 = "put_node root0 ?p node1"
  from snoc.prems(1) have so0: "sub_ok m h root0" by (simp add: root_ok_def)
  from snoc.prems(2) obtain P0 where P0: "get_node root0 q = Some P0"
    and j: "j < length (Children P0)" and c0: "Children P0 ! j = node0"
    by (auto simp: get_node_snoc split: option.splits if_splits)
  note gP0 = get_node_sub_ok [OF so0 P0]
  from gP0 have lq: "length q < h" and soP0: "sub_ok m (h - length q) P0" by auto
  from j have neP0: "Children P0 \<noteq> []" by auto
  from sub_ok_internal [OF soP0 neP0]
  have lenP0: "length (Children P0) = length (Entries P0) + 1" and hq: "1 < h - length q" by auto
  have hp: "h - length ?p = h - length q - 1" by simp
  let ?P1 = "Node (Entries P0) ((Children P0)[j := node1])"
  have root1: "?root1 = put_node root0 q ?P1"
    by (rule put_node_snoc [OF P0])
  have g1: "get_node ?root1 ?p = Some node1"
    by (rule get_put_node [OF snoc.prems(2)])
  have gq1: "get_node ?root1 q = Some ?P1"
    unfolding root1 by (rule get_put_node [OF P0])
  from inorder_put_node_ctx [OF so0 P0] obtain pre post where
    ctx: "\<forall>x'. inorder (put_node root0 q x') = pre @ inorder x' @ post" by blast
  have in1: "inorder ?root1 = pre @ inorder ?P1 @ post"
    unfolding root1 using ctx by blast
  show ?case
  proof (cases "shouldSplit m node1")
    case False
    then have "split m ?root1 ?p = Inr ?root1"
      using g1 by (simp add: split.simps [of m ?root1 ?p])
    moreover have "full_ok m (h - length ?p) node1"
      using snoc.prems(3,5) False by (simp add: full_ok_iff shouldSplit_def)
    then have "root_ok m h ?root1"
      by (intro put_node_root_ok [OF snoc.prems(1,2)]) simp_all
    ultimately show ?thesis by blast
  next
    case True
    with snoc.prems(4) sp have len: "length (Entries node1) = m"
      by (simp add: shouldSplit_def)
    let ?mid = "middle m"
    let ?left = "Node (take ?mid (Entries node1))
                   (if isLeaf node1 then [] else take (?mid + 1) (Children node1))"
    let ?right = "Node (drop (?mid + 1) (Entries node1))
                   (if isLeaf node1 then [] else drop (?mid + 1) (Children node1))"
    let ?e = "Entries node1 ! ?mid"
    note sh = split_halves [OF m3 snoc.prems(3) len]
    have sortedP1: "sorted_keys (inorder ?P1)"
      using snoc.prems(6) in1 by (simp add: sorted_keys_append)
    have "?e \<in> set (Entries node1)" using sh(4) by simp
    then have "?e \<in> set (inorder node1)" using set_Entries_inorder by blast
    then have "?e \<in> set (inorder (Children ?P1 ! j))" using j by simp
    then have pos: "search ?P1 (Key ?e) = (j, False)"
      by (intro search_child_key sortedP1) (use lenP0 j in simp_all)
    let ?P' = "Node (insert_at j ?e (Entries P0))
                 (insert_at (j + 1) ?right ((Children P0)[j := ?left]))"
    have snr: "splitNonRoot m ?root1 ?p = split m (put_node ?root1 q ?P') q"
      using g1 gq1 sh(4,5) pos j
      by (cases "Children node1 = []")
         (simp_all add: splitNonRoot.simps [of m ?root1 ?p] Let_def isLeaf_def)
    have pp: "put_node ?root1 q ?P' = put_node root0 q ?P'"
      by (rule put_put_node_prefix [OF P0])
    note ab = absorb_split [OF soP0 j sh(1,2) [unfolded hp] sh(3)]
    have inP': "inorder (put_node root0 q ?P') = inorder ?root1"
      using ctx ab(3) in1 by simp
    have "\<exists>root' h'. split m (put_node root0 q ?P') q = Inr root' \<and> root_ok m h' root' \<and>
          (h' = h \<or> (h' = h + 1 \<and> length (Entries root') = 1)) \<and>
          inorder root' = inorder (put_node root0 q ?P')"
    proof (rule snoc.IH [OF snoc.prems(1) P0 ab(1)])
      have "length (Entries P0) \<le> maxEntries m"
      proof (cases "q = []")
        case True
        with P0 snoc.prems(1) show ?thesis by (simp add: root_ok_def)
      next
        case False
        with gP0 show ?thesis by (simp add: full_ok_iff)
      qed
      then show "length (Entries ?P') \<le> maxEntries m + 1" using ab(2) by simp
      have "(if q = [] then 1 else minEntries m) \<le> length (Entries P0) + 1"
      proof (cases "q = []")
        case True
        then show ?thesis by simp
      next
        case False
        with gP0 show ?thesis by (simp add: full_ok_iff)
      qed
      then show "(if q = [] then 1 else minEntries m) \<le> length (Entries ?P')"
        using ab(2) by simp
      show "sorted_keys (inorder (put_node root0 q ?P'))"
        using inP' snoc.prems(6) by simp
    qed
    then obtain root' h' where
      r: "split m (put_node root0 q ?P') q = Inr root'" "root_ok m h' root'"
        "h' = h \<or> (h' = h + 1 \<and> length (Entries root') = 1)"
        "inorder root' = inorder (put_node root0 q ?P')" by blast
    have "split m ?root1 ?p = Inr root'"
      using True g1 snr pp r(1) by (simp add: split.simps [of m ?root1 ?p])
    with r inP' show ?thesis by auto
  qed
qed

end
